theory Spec2Isabelle
  imports Main "HOL-Library.Word" "HOL-Library.Monad_Syntax"
begin

section \<open>Lisp objects and the host runtime\<close>

text \<open>
  The profiler of \<^verbatim>\<open>src/profiler.c\<close> handles Lisp objects only through a few
  primitives of the host runtime. Objects are modelled by a datatype; \<^verbatim>\<open>EQ\<close> is
  equality of the objects the profiler stores (symbols and \<^verbatim>\<open>nil\<close>).
\<close>

datatype Lisp_Object =
    Qnil
  | Qt
  | Symbol string
  | Number int
  | Cons Lisp_Object Lisp_Object

definition NILP :: "Lisp_Object \<Rightarrow> bool" where
  "NILP x = (x = Qnil)"

definition EQ :: "Lisp_Object \<Rightarrow> Lisp_Object \<Rightarrow> bool" where
  "EQ x y = (x = y)"

fun SYMBOLP :: "Lisp_Object \<Rightarrow> bool" where
  "SYMBOLP Qnil = True"
| "SYMBOLP Qt = True"
| "SYMBOLP (Symbol n) = True"
| "SYMBOLP (Number k) = False"
| "SYMBOLP (Cons a b) = False"

definition intern :: "string \<Rightarrow> Lisp_Object" where
  "intern n = Symbol n"

definition Fcons :: "Lisp_Object \<Rightarrow> Lisp_Object \<Rightarrow> Lisp_Object" where
  "Fcons a b = Cons a b"

definition list1 :: "Lisp_Object \<Rightarrow> Lisp_Object" where
  "list1 a = Fcons a Qnil"

definition list2 :: "Lisp_Object \<Rightarrow> Lisp_Object \<Rightarrow> Lisp_Object" where
  "list2 a b = Fcons a (Fcons b Qnil)"

fun Flist :: "Lisp_Object list \<Rightarrow> Lisp_Object" where
  "Flist [] = Qnil"
| "Flist (x # xs) = Fcons x (Flist xs)"

text \<open>
  The macros and functions of \<^verbatim>\<open>lisp.h\<close> that the profiler calls and whose
  definitions are not part of the profiler are parameters of the model:
  \<^verbatim>\<open>XUINT\<close>, \<^verbatim>\<open>SXHASH_COMBINE\<close> (on \<^verbatim>\<open>EMACS_UINT\<close>, read as a natural number),
  \<^verbatim>\<open>Ffboundp\<close>, \<^verbatim>\<open>XINT\<close>, \<^verbatim>\<open>make_number\<close>, and whether \<^verbatim>\<open>eassert\<close> is compiled in.
\<close>

record (overloaded) 'w lisp_host =
  XUINT :: "Lisp_Object \<Rightarrow> nat"
  SXHASH_COMBINE :: "nat \<Rightarrow> nat \<Rightarrow> nat"
  Ffboundp :: "Lisp_Object \<Rightarrow> Lisp_Object"
  XINT :: "Lisp_Object \<Rightarrow> int"
  make_number :: "'w word \<Rightarrow> Lisp_Object"
  ENABLE_CHECKING :: bool

definition eassert :: "('w::len) lisp_host \<Rightarrow> bool \<Rightarrow> unit option" where
  "eassert rt c = (if ENABLE_CHECKING rt \<and> \<not> c then None else Some ())"

section \<open>The profiler's data\<close>

text \<open>
  \<^verbatim>\<open>struct prof_slot\<close>. A pointer to a slot is \<^verbatim>\<open>NULL\<close> or the address of an element
  of \<^verbatim>\<open>prof_slot_heap\<close>, so it is modelled as an optional index into that array.
  The backtrace buffer a slot points to is owned by the slot. The counters are
  \<^verbatim>\<open>unsigned long\<close>: words whose width \<open>'w\<close> is left open.
\<close>

record (overloaded) 'w prof_slot =
  s_next :: "nat option"
  s_prev :: "nat option"
  s_backtrace :: "Lisp_Object list"
  s_count :: "'w word"
  s_used :: bool

text \<open>
  The static variables of the file, the two configuration variables, and the part
  of the process state the profiler acts on: the action installed for
  \<^verbatim>\<open>SIGPROF\<close>, the profiling timer (its period in microseconds when armed) and the
  signal mask. A result \<open>None\<close> of an operation means that the C code made an invalid
  memory access (a null or freed pointer, an index out of bounds) or failed an
  enabled assertion, or that a loop does not end.
\<close>

record (overloaded) 'w prof_state =
  prof_mode :: Lisp_Object
  prof_start_time :: Lisp_Object
  prof_sample_interval :: Lisp_Object
  prof_backtrace :: "Lisp_Object list option"
  prof_max_stack_depth :: nat
  prof_hash_table :: "nat option list"
  prof_slot_heap :: "'w prof_slot list option"
  prof_slot_heap_size :: nat
  prof_free_list :: "nat option"
  prof_total_count :: "'w word"
  prof_others_count :: "'w word"
  profiler_max_stack_depth :: int
  profiler_slot_heap_size :: int
  sigprof_handler :: bool
  itimer_prof :: "int option"
  sigprof_blocked :: bool

definition PROF_HASH_TABLE_SIZE :: nat where
  "PROF_HASH_TABLE_SIZE = 128"

definition get_slot :: "('w::len) prof_state \<Rightarrow> nat \<Rightarrow> 'w prof_slot option" where
  "get_slot s i =
     (case prof_slot_heap s of
        None \<Rightarrow> None
      | Some h \<Rightarrow> if i < length h then Some (h ! i) else None)"

definition upd_slot ::
  "nat \<Rightarrow> (('w::len) prof_slot \<Rightarrow> 'w prof_slot) \<Rightarrow> 'w prof_state \<Rightarrow> 'w prof_state option" where
  "upd_slot i f s =
     (case prof_slot_heap s of
        None \<Rightarrow> None
      | Some h \<Rightarrow>
          if i < length h then Some (s\<lparr>prof_slot_heap := Some (h[i := f (h ! i)])\<rparr>)
          else None)"

section \<open>Backtraces\<close>

definition prof_backtrace_hash :: "('w::len) lisp_host \<Rightarrow> nat \<Rightarrow> Lisp_Object list \<Rightarrow> nat" where
  "prof_backtrace_hash rt D backtrace =
     foldl (\<lambda>hash i. SXHASH_COMBINE rt (XUINT rt (backtrace ! i)) hash) 0 [0..<D]"

definition prof_backtrace_index :: "('w::len) lisp_host \<Rightarrow> nat \<Rightarrow> Lisp_Object list \<Rightarrow> nat" where
  "prof_backtrace_index rt D backtrace =
     prof_backtrace_hash rt D backtrace mod PROF_HASH_TABLE_SIZE"

function prof_backtrace_list :: "nat \<Rightarrow> Lisp_Object list \<Rightarrow> nat \<Rightarrow> Lisp_Object" where
  "prof_backtrace_list D backtrace n =
     (if D \<le> n then Qnil
      else if NILP (backtrace ! n) then Qnil
      else Fcons (backtrace ! n) (prof_backtrace_list D backtrace (n + 1)))"
  by pat_completeness auto
termination
  by (relation "measure (\<lambda>(D, backtrace, n). D - n)") auto

declare prof_backtrace_list.simps [simp del]

function prof_backtrace_equal_from ::
  "nat \<Rightarrow> Lisp_Object list \<Rightarrow> Lisp_Object list \<Rightarrow> nat \<Rightarrow> bool" where
  "prof_backtrace_equal_from D a b i =
     (if i < D then
        (if \<not> EQ (a ! i) (b ! i) then False
         else prof_backtrace_equal_from D a b (i + 1))
      else True)"
  by pat_completeness auto
termination
  by (relation "measure (\<lambda>(D, a, b, i). D - i)") auto

declare prof_backtrace_equal_from.simps [simp del]

definition prof_backtrace_equal :: "nat \<Rightarrow> Lisp_Object list \<Rightarrow> Lisp_Object list \<Rightarrow> bool" where
  "prof_backtrace_equal D a b = prof_backtrace_equal_from D a b 0"

section \<open>Slots: unlinking, freeing, eviction, allocation\<close>

definition prof_unlink_slot ::
  "('w::len) lisp_host \<Rightarrow> nat \<Rightarrow> 'w prof_state \<Rightarrow> 'w prof_state option" where
  "prof_unlink_slot rt slot s = do {
     sl \<leftarrow> get_slot s slot;
     s1 \<leftarrow> (case s_prev sl of
             Some p \<Rightarrow> upd_slot p (\<lambda>x. x\<lparr>s_next := s_next sl\<rparr>) s
           | None \<Rightarrow>
               Some (s\<lparr>prof_hash_table :=
                 (prof_hash_table s)
                   [prof_backtrace_index rt (prof_max_stack_depth s) (s_backtrace sl)
                      := s_next sl]\<rparr>));
     sl1 \<leftarrow> get_slot s1 slot;
     (case s_next sl1 of
        Some n \<Rightarrow> upd_slot n (\<lambda>x. x\<lparr>s_prev := s_prev sl1\<rparr>) s1
      | None \<Rightarrow> Some s1)
   }"

definition prof_free_slot ::
  "('w::len) lisp_host \<Rightarrow> nat \<Rightarrow> 'w prof_state \<Rightarrow> 'w prof_state option" where
  "prof_free_slot rt slot s = do {
     sl \<leftarrow> get_slot s slot;
     _ \<leftarrow> eassert rt (s_used sl);
     s1 \<leftarrow> prof_unlink_slot rt slot s;
     s2 \<leftarrow> upd_slot slot (\<lambda>x. x\<lparr>s_used := False, s_next := prof_free_list s1\<rparr>) s1;
     Some (s2\<lparr>prof_free_list := Some slot\<rparr>)
   }"

definition prof_evict_slot ::
  "('w::len) lisp_host \<Rightarrow> nat \<Rightarrow> 'w prof_state \<Rightarrow> 'w prof_state option" where
  "prof_evict_slot rt slot s = do {
     sl \<leftarrow> get_slot s slot;
     prof_free_slot rt slot (s\<lparr>prof_others_count := prof_others_count s + s_count sl\<rparr>)
   }"

text \<open>
  The scan of \<^verbatim>\<open>prof_evict_min_slot\<close>: the loop over \<open>i < n\<close> carrying the pointer
  \<^verbatim>\<open>min\<close>. The function itself runs it with \<open>n = prof_slot_heap_size\<close>; with a smaller
  \<open>n\<close> it gives the provisional minimum after \<open>n\<close> iterations.
\<close>

function prof_evict_min_scan ::
  "('w::len) prof_state \<Rightarrow> nat \<Rightarrow> nat \<Rightarrow> nat option \<Rightarrow> nat option option" where
  "prof_evict_min_scan s n i minp =
     (if i < n then do {
        min1 \<leftarrow> (case minp of
                  None \<Rightarrow> Some (Some i)
                | Some m \<Rightarrow> do {
                    sl \<leftarrow> get_slot s i;
                    if s_used sl then do {
                      ms \<leftarrow> get_slot s m;
                      Some (if s_count sl < s_count ms then Some i else minp)
                    } else Some minp
                  });
        prof_evict_min_scan s n (i + 1) min1
      } else Some minp)"
  by pat_completeness auto
termination
  by (relation "measure (\<lambda>(s, n, i, minp). n - i)") auto

declare prof_evict_min_scan.simps [simp del]

definition prof_evict_min_slot :: "('w::len) lisp_host \<Rightarrow> 'w prof_state \<Rightarrow> 'w prof_state option" where
  "prof_evict_min_slot rt s = do {
     minp \<leftarrow> prof_evict_min_scan s (prof_slot_heap_size s) 0 None;
     (case minp of
        None \<Rightarrow> None
      | Some m \<Rightarrow> prof_evict_slot rt m s)
   }"

definition prof_allocate_slot ::
  "('w::len) lisp_host \<Rightarrow> 'w prof_state \<Rightarrow> (nat \<times> 'w prof_state) option" where
  "prof_allocate_slot rt s = do {
     s1 \<leftarrow> (if prof_free_list s = None then do {
              s' \<leftarrow> prof_evict_min_slot rt s;
              _ \<leftarrow> eassert rt (prof_free_list s' \<noteq> None);
              Some s'
            } else Some s);
     (case prof_free_list s1 of
        None \<Rightarrow> None
      | Some slot \<Rightarrow> do {
          s2 \<leftarrow> upd_slot slot (\<lambda>x. x\<lparr>s_used := True\<rparr>) s1;
          sl \<leftarrow> get_slot s2 slot;
          Some (slot, s2\<lparr>prof_free_list := s_next sl\<rparr>)
        })
   }"

definition prof_make_slot ::
  "('w::len) lisp_host \<Rightarrow> Lisp_Object list \<Rightarrow> 'w prof_state \<Rightarrow> (nat \<times> 'w prof_state) option" where
  "prof_make_slot rt backtrace s = do {
     (slot, s1) \<leftarrow> prof_allocate_slot rt s;
     s2 \<leftarrow> upd_slot slot
            (\<lambda>x. x\<lparr>s_backtrace :=
                      map (\<lambda>i. backtrace ! i) [0..<prof_max_stack_depth s1]
                        @ drop (prof_max_stack_depth s1) (s_backtrace x),
                    s_prev := None, s_next := None, s_count := 0\<rparr>) s1;
     Some (slot, s2)
   }"

section \<open>Lookup or creation\<close>

text \<open>
  The \<^verbatim>\<open>while\<close> loop of \<^verbatim>\<open>prof_ensure_slot\<close> follows \<^verbatim>\<open>next\<close> pointers and need not
  end on a cyclic chain: it is a partial function, \<open>None\<close> when it does not return.
  It returns the slot found (or \<^verbatim>\<open>NULL\<close>) and the final value of \<^verbatim>\<open>prev\<close>.
\<close>

partial_function (option) prof_ensure_slot_loop ::
  "('w::len) prof_state \<Rightarrow> Lisp_Object list \<Rightarrow> nat option \<Rightarrow> nat option
     \<Rightarrow> (nat option \<times> nat option) option" where
  "prof_ensure_slot_loop s backtrace slot prev =
     (case slot of
        None \<Rightarrow> Some (None, prev)
      | Some i \<Rightarrow>
          (case get_slot s i of
             None \<Rightarrow> None
           | Some sl \<Rightarrow>
               if prof_backtrace_equal (prof_max_stack_depth s) backtrace (s_backtrace sl)
               then Some (Some i, prev)
               else prof_ensure_slot_loop s backtrace (s_next sl) (Some i)))"

declare prof_ensure_slot_loop.simps [code]

definition prof_ensure_slot ::
  "('w::len) lisp_host \<Rightarrow> Lisp_Object list \<Rightarrow> 'w prof_state \<Rightarrow> (nat \<times> 'w prof_state) option" where
  "prof_ensure_slot rt backtrace s = do {
     let index = prof_backtrace_index rt (prof_max_stack_depth s) backtrace;
     let head = prof_hash_table s ! index;
     (found, prev) \<leftarrow> prof_ensure_slot_loop s backtrace head head;
     (case found of
        Some slot \<Rightarrow> Some (slot, s)
      | None \<Rightarrow> do {
          (slot, s1) \<leftarrow> prof_make_slot rt backtrace s;
          (case prev of
             Some p \<Rightarrow> do {
               s2 \<leftarrow> upd_slot slot (\<lambda>x. x\<lparr>s_prev := Some p\<rparr>) s1;
               s3 \<leftarrow> upd_slot p (\<lambda>x. x\<lparr>s_next := Some slot\<rparr>) s2;
               Some (slot, s3)
             }
           | None \<Rightarrow>
               Some (slot, s1\<lparr>prof_hash_table := (prof_hash_table s1)[index := Some slot]\<rparr>))
        })
   }"

section \<open>The signal handler\<close>

text \<open>
  \<^verbatim>\<open>prof_signal_handler\<close> receives the runtime's \<^verbatim>\<open>backtrace_list\<close>: the functions
  of the active frames, innermost first.
\<close>

fun prof_fill_backtrace ::
  "('w::len) lisp_host \<Rightarrow> nat \<Rightarrow> nat \<Rightarrow> Lisp_Object list \<Rightarrow> Lisp_Object list \<Rightarrow> Lisp_Object list" where
  "prof_fill_backtrace rt D i [] buf = buf"
| "prof_fill_backtrace rt D i (fn # backlist) buf =
     (if i < D then
        prof_fill_backtrace rt D (i + 1) backlist
          (if SYMBOLP fn \<and> \<not> NILP (Ffboundp rt fn) then buf[i := fn]
           else buf)
      else buf)"

definition prof_capture ::
  "('w::len) lisp_host \<Rightarrow> nat \<Rightarrow> Lisp_Object list \<Rightarrow> Lisp_Object list \<Rightarrow> Lisp_Object list" where
  "prof_capture rt D backtrace_list buf =
     prof_fill_backtrace rt D 0 backtrace_list (fold (\<lambda>i b. b[i := Qnil]) [0..<D] buf)"

definition prof_signal_handler ::
  "('w::len) lisp_host \<Rightarrow> Lisp_Object list \<Rightarrow> 'w prof_state \<Rightarrow> 'w prof_state option" where
  "prof_signal_handler rt backtrace_list s =
     (case prof_backtrace s of
        None \<Rightarrow> None
      | Some buf0 \<Rightarrow>
          if length buf0 < prof_max_stack_depth s \<or> length buf0 = 0 then None
          else do {
            let buf = prof_capture rt (prof_max_stack_depth s) backtrace_list buf0;
            let s0 = s\<lparr>prof_backtrace := Some buf\<rparr>;
            if \<not> NILP (buf ! 0) then do {
              (slot, s1) \<leftarrow> prof_ensure_slot rt buf s0;
              s2 \<leftarrow> upd_slot slot (\<lambda>x. x\<lparr>s_count := s_count x + 1\<rparr>) s1;
              Some (s2\<lparr>prof_total_count := prof_total_count s2 + 1\<rparr>)
            } else Some s0
          })"

section \<open>Initialisation and the control functions\<close>

text \<open>
  The configuration variables \<^verbatim>\<open>profiler_max_stack_depth\<close> and
  \<^verbatim>\<open>profiler_slot_heap_size\<close> are Lisp integers (\<^verbatim>\<open>EMACS_INT\<close>). \<^verbatim>\<open>prof_init\<close>
  assigns them to variables of type \<^verbatim>\<open>unsigned int\<close>, which reduces them modulo
  \<open>2^32\<close>: \<^verbatim>\<open>unsigned int\<close> has 32 bits. The sizes passed to \<^verbatim>\<open>xmalloc\<close> are computed
  in \<^verbatim>\<open>size_t\<close>, taken to be wide enough for them, and \<^verbatim>\<open>xmalloc\<close> is taken to
  return.
\<close>

definition unsigned_int :: "int \<Rightarrow> nat" where
  "unsigned_int x = nat (x mod 2 ^ 32)"

text \<open>
  \<^verbatim>\<open>prof_init\<close>, in three blocks. \<^verbatim>\<open>xmalloc\<close> returns memory with indeterminate
  contents: \<open>junk i\<close> is what slot \<open>i\<close> holds before the function writes to it.

  The first block (lines 244 to 262) sets the stack depth, allocates the backtrace
  buffer, clears the hash table, sets the size of the slot heap, allocates it, and marks
  every slot unused and gives it a backtrace buffer. The block does not assign
  \<^verbatim>\<open>prof_free_list\<close>. When that is not null, it points into the heap that
  \<^verbatim>\<open>Fprofiler_reset\<close> freed, not into the new one: as an index, it is moved outside the
  new heap, so that following it is an invalid access.
\<close>

definition prof_init_alloc ::
  "(nat \<Rightarrow> ('w::len) prof_slot) \<Rightarrow> 'w prof_state \<Rightarrow> 'w prof_state" where
  "prof_init_alloc junk s =
     (let D = unsigned_int (profiler_max_stack_depth s);
          N = unsigned_int (profiler_slot_heap_size s) in
      s\<lparr>
        prof_max_stack_depth := D,
        prof_backtrace := Some (take D (s_backtrace (junk N) @ replicate D Qnil)),
        prof_hash_table := replicate PROF_HASH_TABLE_SIZE None,
        prof_slot_heap_size := N,
        prof_slot_heap := Some (map (\<lambda>i. (junk i)\<lparr>
            s_used := False,
            s_backtrace := take D (s_backtrace (junk i) @ replicate D Qnil)\<rparr>) [0..<N]),
        prof_free_list := map_option (\<lambda>i. N + i) (prof_free_list s)\<rparr>)"

text \<open>
  The second block (lines 264 to 270) makes slot 0 the head of the free list and chains
  all slots through \<^verbatim>\<open>next\<close>, the last one ending the list. With a slot heap of size
  zero, the final \<^verbatim>\<open>free_list->next = 0\<close> writes outside the allocation.
\<close>

definition prof_init_free_list :: "('w::len) prof_state \<Rightarrow> 'w prof_state option" where
  "prof_init_free_list s =
     (case prof_slot_heap s of
        None \<Rightarrow> None
      | Some h \<Rightarrow>
          (let N = prof_slot_heap_size s in
           if N = 0 \<or> length h < N then None
           else Some (s\<lparr>
             prof_slot_heap := Some (map (\<lambda>i.
                 if i < N
                 then (h ! i)\<lparr>s_next := (if i + 1 < N then Some (i + 1) else None)\<rparr>
                 else h ! i) [0..<length h]),
             prof_free_list := Some 0\<rparr>)))"

text \<open>The third block (lines 272 and 273) clears the two counters.\<close>

definition prof_init_counters :: "('w::len) prof_state \<Rightarrow> 'w prof_state" where
  "prof_init_counters s = s\<lparr>prof_total_count := 0, prof_others_count := 0\<rparr>"

definition prof_init ::
  "(nat \<Rightarrow> ('w::len) prof_slot) \<Rightarrow> 'w prof_state \<Rightarrow> 'w prof_state option" where
  "prof_init junk s = do {
     s1 \<leftarrow> prof_init_free_list (prof_init_alloc junk s);
     Some (prof_init_counters s1)
   }"

text \<open>
  \<^verbatim>\<open>prof_init\<close> runs with \<^verbatim>\<open>SIGPROF\<close> unblocked: only \<^verbatim>\<open>Fprofiler_reset\<close> and
  \<^verbatim>\<open>Fprofiler_take_snapshot\<close> block it. When the timer is armed and the handler
  installed (as \<^verbatim>\<open>Fprofiler_reset\<close> leaves them), the handler can run inside
  \<^verbatim>\<open>prof_init\<close>. \<open>prof_deliver\<close> runs the handler once for each of a list of
  \<^verbatim>\<open>backtrace_list\<close>s; \<open>prof_init_interrupted\<close> is \<^verbatim>\<open>prof_init\<close> with the handler runs
  \<open>irq1\<close> between the first and the second block and \<open>irq2\<close> between the second and
  the third. The handler can run between any two other statements as well; these two
  places are enough to show what can go wrong.
\<close>

fun prof_deliver ::
  "('w::len) lisp_host \<Rightarrow> Lisp_Object list list \<Rightarrow> 'w prof_state \<Rightarrow> 'w prof_state option" where
  "prof_deliver rt [] s = Some s"
| "prof_deliver rt (backtrace_list # irq) s =
     Option.bind (prof_signal_handler rt backtrace_list s) (prof_deliver rt irq)"

definition prof_init_interrupted ::
  "('w::len) lisp_host \<Rightarrow> (nat \<Rightarrow> 'w prof_slot) \<Rightarrow> Lisp_Object list list
     \<Rightarrow> Lisp_Object list list \<Rightarrow> 'w prof_state \<Rightarrow> 'w prof_state option" where
  "prof_init_interrupted rt junk irq1 irq2 s = do {
     s1 \<leftarrow> prof_deliver rt irq1 (prof_init_alloc junk s);
     s2 \<leftarrow> prof_init_free_list s1;
     s3 \<leftarrow> prof_deliver rt irq2 s2;
     Some (prof_init_counters s3)
   }"

definition Fprofiler_mode :: "('w::len) prof_state \<Rightarrow> Lisp_Object" where
  "Fprofiler_mode s = prof_mode s"

text \<open>
  \<^verbatim>\<open>sigaction\<close> and \<^verbatim>\<open>setitimer\<close> are system calls: whether each succeeds is an input.
  A successful \<^verbatim>\<open>sigaction\<close> installs the handler; a successful \<^verbatim>\<open>setitimer\<close> arms the
  timer with the given period, a zero or absent value disarming it. A failed call
  changes nothing.
\<close>

definition sigaction_SIGPROF :: "bool \<Rightarrow> ('w::len) prof_state \<Rightarrow> 'w prof_state" where
  "sigaction_SIGPROF ok s = (if ok then s\<lparr>sigprof_handler := True\<rparr> else s)"

definition setitimer_PROF :: "bool \<Rightarrow> int option \<Rightarrow> ('w::len) prof_state \<Rightarrow> 'w prof_state" where
  "setitimer_PROF ok usec s =
     (if ok then s\<lparr>itimer_prof := (if usec = Some 0 then None else usec)\<rparr> else s)"

definition prof_block_signal :: "('w::len) prof_state \<Rightarrow> 'w prof_state" where
  "prof_block_signal s = s\<lparr>sigprof_blocked := True\<rparr>"

definition prof_unblock_signal :: "('w::len) prof_state \<Rightarrow> 'w prof_state" where
  "prof_unblock_signal s = s\<lparr>sigprof_blocked := False\<rparr>"

definition Fprofiler_start_sampling ::
  "('w::len) lisp_host \<Rightarrow> bool \<Rightarrow> bool \<Rightarrow> (nat \<Rightarrow> 'w prof_slot) \<Rightarrow> Lisp_Object \<Rightarrow> Lisp_Object
     \<Rightarrow> 'w prof_state \<Rightarrow> (Lisp_Object \<times> 'w prof_state) option" where
  "Fprofiler_start_sampling rt sigaction_ok setitimer_ok junk current_time sample_interval s = do {
     s1 \<leftarrow> (if prof_slot_heap s = None then prof_init junk s else Some s);
     let s2 = s1\<lparr>prof_mode := intern ''sample'',
                 prof_start_time := current_time,
                 prof_sample_interval := sample_interval\<rparr>;
     let s3 = sigaction_SIGPROF sigaction_ok s2;
     let s4 = setitimer_PROF setitimer_ok (Some (XINT rt sample_interval * 1000)) s3;
     Some (Qt, s4)
   }"

text \<open>
  The same function with the handler running inside \<^verbatim>\<open>prof_init\<close>. A handler run
  elsewhere in the function neither reads nor writes what the function assigns there,
  and is a handler run before or after the call.
\<close>

definition Fprofiler_start_sampling_interrupted ::
  "('w::len) lisp_host \<Rightarrow> bool \<Rightarrow> bool \<Rightarrow> (nat \<Rightarrow> 'w prof_slot) \<Rightarrow> Lisp_Object \<Rightarrow> Lisp_Object
     \<Rightarrow> Lisp_Object list list \<Rightarrow> Lisp_Object list list
     \<Rightarrow> 'w prof_state \<Rightarrow> (Lisp_Object \<times> 'w prof_state) option" where
  "Fprofiler_start_sampling_interrupted rt sigaction_ok setitimer_ok junk current_time
       sample_interval irq1 irq2 s = do {
     s1 \<leftarrow> (if prof_slot_heap s = None then prof_init_interrupted rt junk irq1 irq2 s
            else Some s);
     let s2 = s1\<lparr>prof_mode := intern ''sample'',
                 prof_start_time := current_time,
                 prof_sample_interval := sample_interval\<rparr>;
     let s3 = sigaction_SIGPROF sigaction_ok s2;
     let s4 = setitimer_PROF setitimer_ok (Some (XINT rt sample_interval * 1000)) s3;
     Some (Qt, s4)
   }"

text \<open>
  \<^verbatim>\<open>Fprofiler_stop_sampling\<close> passes a null pointer as the new timer value and ignores
  the result of \<^verbatim>\<open>setitimer\<close>. Neither it nor \<^verbatim>\<open>Fprofiler_reset\<close> has a \<^verbatim>\<open>return\<close>
  statement: the value the caller receives is indeterminate and is not modelled.
\<close>

definition Fprofiler_stop_sampling :: "bool \<Rightarrow> ('w::len) prof_state \<Rightarrow> 'w prof_state" where
  "Fprofiler_stop_sampling setitimer_ok s = setitimer_PROF setitimer_ok None s"

definition Fprofiler_reset :: "('w::len) prof_state \<Rightarrow> 'w prof_state" where
  "Fprofiler_reset s =
     (let s1 = prof_block_signal s;
          s2 = (if prof_slot_heap s1 \<noteq> None
                then s1\<lparr>prof_backtrace := None, prof_slot_heap := None\<rparr>
                else s1)
      in prof_unblock_signal s2)"

text \<open>The loop of \<^verbatim>\<open>Fprofiler_take_snapshot\<close> over the slot heap, from index \<open>i\<close>.\<close>

function prof_snapshot_slots ::
  "('w::len) lisp_host \<Rightarrow> 'w prof_state \<Rightarrow> nat \<Rightarrow> Lisp_Object \<Rightarrow> Lisp_Object option" where
  "prof_snapshot_slots rt s i slots =
     (if i < prof_slot_heap_size s then do {
        sl \<leftarrow> get_slot s i;
        prof_snapshot_slots rt s (i + 1)
          (if s_used sl
           then Fcons (list2 (prof_backtrace_list (prof_max_stack_depth s) (s_backtrace sl) 0)
                             (make_number rt (s_count sl))) slots
           else slots)
      } else Some slots)"
  by pat_completeness auto
termination
  by (relation "measure (\<lambda>(rt, s, i, slots). prof_slot_heap_size s - i)") auto

declare prof_snapshot_slots.simps [simp del]

definition Fprofiler_take_snapshot ::
  "('w::len) lisp_host \<Rightarrow> Lisp_Object \<Rightarrow> 'w prof_state \<Rightarrow> (Lisp_Object \<times> 'w prof_state) option" where
  "Fprofiler_take_snapshot rt current_time s = do {
     let s1 = prof_block_signal s;
     let stop_time = current_time;
     slots \<leftarrow> prof_snapshot_slots rt s1 0
                (list1 (list2 (list1 Qt) (make_number rt (prof_others_count s1))));
     let snapshot = Flist
       [intern ''mode'', prof_mode s1,
        intern ''start-time'', prof_start_time s1,
        intern ''stop-time'', stop_time,
        intern ''slots'', slots,
        intern ''sample-interval'', prof_sample_interval s1,
        intern ''sample-count'', make_number rt (prof_total_count s1)];
     Some (snapshot, prof_unblock_signal s1)
   }"

text \<open>
  \<^verbatim>\<open>syms_of_profiler\<close>, from the zero-initialised static variables: \<open>z\<close> is the Lisp
  object whose representation is all zero bits.
\<close>

definition syms_of_profiler :: "Lisp_Object \<Rightarrow> ('w::len) prof_state" where
  "syms_of_profiler z =
     \<lparr>prof_mode = Qnil,
      prof_start_time = z,
      prof_sample_interval = z,
      prof_backtrace = None,
      prof_max_stack_depth = 0,
      prof_hash_table = replicate PROF_HASH_TABLE_SIZE None,
      prof_slot_heap = None,
      prof_slot_heap_size = 0,
      prof_free_list = None,
      prof_total_count = 0,
      prof_others_count = 0,
      profiler_max_stack_depth = 16,
      profiler_slot_heap_size = 10000,
      sigprof_handler = False,
      itimer_prof = None,
      sigprof_blocked = False\<rparr>"

section \<open>Runs of the profiler\<close>

text \<open>
  What can happen to the profiler between two observations: the user sets the two
  configuration variables, calls one of the control functions, or \<^verbatim>\<open>SIGPROF\<close> is
  delivered and the handler runs to completion on the runtime's current
  \<^verbatim>\<open>backtrace_list\<close>. A call of \<^verbatim>\<open>Fprofiler_start_sampling\<close> comes with the handler
  runs that happen inside its \<^verbatim>\<open>prof_init\<close>. A run is a sequence of such events; it is
  \<open>None\<close> as soon as one of them fails. An event is atomic when no handler runs
  inside it.
\<close>

datatype prof_event =
    Configure int int
  | Start_sampling bool bool Lisp_Object Lisp_Object "Lisp_Object list list"
      "Lisp_Object list list"
  | Stop_sampling bool
  | Reset
  | Take_snapshot Lisp_Object
  | Signal "Lisp_Object list"

fun prof_step ::
  "('w::len) lisp_host \<Rightarrow> (nat \<Rightarrow> 'w prof_slot) \<Rightarrow> prof_event \<Rightarrow> 'w prof_state
     \<Rightarrow> 'w prof_state option" where
  "prof_step rt junk (Configure D N) s =
     Some (s\<lparr>profiler_max_stack_depth := D, profiler_slot_heap_size := N\<rparr>)"
| "prof_step rt junk (Start_sampling sa_ok it_ok now interval irq1 irq2) s =
     map_option snd
       (Fprofiler_start_sampling_interrupted rt sa_ok it_ok junk now interval irq1 irq2 s)"
| "prof_step rt junk (Stop_sampling it_ok) s = Some (Fprofiler_stop_sampling it_ok s)"
| "prof_step rt junk Reset s = Some (Fprofiler_reset s)"
| "prof_step rt junk (Take_snapshot now) s = map_option snd (Fprofiler_take_snapshot rt now s)"
| "prof_step rt junk (Signal backtrace_list) s = prof_signal_handler rt backtrace_list s"

fun prof_run ::
  "('w::len) lisp_host \<Rightarrow> (nat \<Rightarrow> 'w prof_slot) \<Rightarrow> prof_event list \<Rightarrow> 'w prof_state
     \<Rightarrow> 'w prof_state option" where
  "prof_run rt junk [] s = Some s"
| "prof_run rt junk (e # es) s = Option.bind (prof_step rt junk e s) (prof_run rt junk es)"

fun atomic_event :: "prof_event \<Rightarrow> bool" where
  "atomic_event (Start_sampling sa_ok it_ok now interval irq1 irq2) = (irq1 = [] \<and> irq2 = [])"
| "atomic_event e = True"

section \<open>Invariants of the slot heap: definitions\<close>

text \<open>
  \<open>path h p xs q\<close>: following \<^verbatim>\<open>next\<close> pointers from \<open>p\<close> visits exactly the slots
  \<open>xs\<close> and arrives at \<open>q\<close>. \<open>prevs h pr xs\<close>: the \<^verbatim>\<open>prev\<close> pointer of every slot of
  \<open>xs\<close> is its predecessor in \<open>xs\<close>, that of the first one is \<open>pr\<close>.
\<close>

fun path :: "('w::len) prof_slot list \<Rightarrow> nat option \<Rightarrow> nat list \<Rightarrow> nat option \<Rightarrow> bool" where
  "path h p [] q = (p = q)"
| "path h p (x # xs) q = (p = Some x \<and> x < length h \<and> path h (s_next (h ! x)) xs q)"

fun prevs :: "('w::len) prof_slot list \<Rightarrow> nat option \<Rightarrow> nat list \<Rightarrow> bool" where
  "prevs h pr [] = True"
| "prevs h pr (x # xs) = (s_prev (h ! x) = pr \<and> prevs h (Some x) xs)"

definition lastopt :: "nat option \<Rightarrow> nat list \<Rightarrow> nat option" where
  "lastopt pr xs = (if xs = [] then pr else Some (last xs))"

text \<open>
  The structure of the heap, with the free list \<open>F\<close> and the chain \<open>B b\<close> of every
  bucket \<open>b\<close> made explicit. The free list holds exactly the unused slots. Every chain
  is a doubly linked list of used slots whose backtrace hashes to the bucket. A used
  slot that is in no chain points to itself in both directions. The slots of \<open>X\<close>
  are being worked on: used, in no chain, with arbitrary links.
\<close>

definition struct_ok ::
  "('w::len) lisp_host \<Rightarrow> 'w prof_state \<Rightarrow> 'w prof_slot list \<Rightarrow> nat list \<Rightarrow> (nat \<Rightarrow> nat list)
     \<Rightarrow> nat set \<Rightarrow> bool" where
  "struct_ok rt s h F B X \<longleftrightarrow>
     prof_slot_heap s = Some h \<and> prof_slot_heap_size s = length h \<and>
     length (prof_hash_table s) = PROF_HASH_TABLE_SIZE \<and>
     (\<forall>i<length h. length (s_backtrace (h ! i)) = prof_max_stack_depth s) \<and>
     path h (prof_free_list s) F None \<and> distinct F \<and>
     set F = {i. i < length h \<and> \<not> s_used (h ! i)} \<and>
     (\<forall>b<PROF_HASH_TABLE_SIZE.
        path h (prof_hash_table s ! b) (B b) None \<and> prevs h None (B b) \<and> distinct (B b) \<and>
        (\<forall>x\<in>set (B b). x < length h \<and> s_used (h ! x) \<and> x \<notin> X \<and>
           prof_backtrace_index rt (prof_max_stack_depth s) (s_backtrace (h ! x)) = b)) \<and>
     (\<forall>i<length h. s_used (h ! i) \<longrightarrow> i \<notin> X \<longrightarrow> (\<forall>b<PROF_HASH_TABLE_SIZE. i \<notin> set (B b)) \<longrightarrow>
        s_next (h ! i) = Some i \<and> s_prev (h ! i) = Some i) \<and>
     X \<subseteq> {i. i < length h \<and> s_used (h ! i)}"

text \<open>
  The counters: the total is the sum of the counts of the used slots (those of \<open>X\<close>
  left out) plus the count of the others, in the arithmetic of \<^verbatim>\<open>unsigned long\<close>.
\<close>

definition slot_weight :: "('w::len) prof_slot list \<Rightarrow> nat set \<Rightarrow> nat \<Rightarrow> 'w word" where
  "slot_weight h X i = (if s_used (h ! i) \<and> i \<notin> X then s_count (h ! i) else 0)"

definition count_ok :: "('w::len) prof_state \<Rightarrow> 'w prof_slot list \<Rightarrow> nat set \<Rightarrow> bool" where
  "count_ok s h X \<longleftrightarrow>
     prof_total_count s = (\<Sum>i<length h. slot_weight h X i) + prof_others_count s"

text \<open>
  The invariant of the whole state: without a slot heap there is no backtrace buffer
  either; with one, the structure and the counters are as above and the backtrace
  buffer has \<^verbatim>\<open>prof_max_stack_depth\<close> elements.
\<close>

definition prof_inv :: "('w::len) lisp_host \<Rightarrow> 'w prof_state \<Rightarrow> bool" where
  "prof_inv rt s \<longleftrightarrow>
     (case prof_slot_heap s of
        None \<Rightarrow> prof_backtrace s = None
      | Some h \<Rightarrow>
          0 < length h \<and> (\<exists>F B. struct_ok rt s h F B {}) \<and> count_ok s h {} \<and>
          (\<exists>buf. prof_backtrace s = Some buf \<and> length buf = prof_max_stack_depth s))"

text \<open>What \<^verbatim>\<open>prof_unlink_slot\<close> and \<^verbatim>\<open>prof_free_slot\<close> do to the heap and the table.\<close>

definition unlink_heap :: "('w::len) prof_slot list \<Rightarrow> nat \<Rightarrow> 'w prof_slot list" where
  "unlink_heap h v =
     (let h1 = (case s_prev (h ! v) of
                  Some p \<Rightarrow> h[p := (h ! p)\<lparr>s_next := s_next (h ! v)\<rparr>]
                | None \<Rightarrow> h)
      in case s_next (h1 ! v) of
           Some n \<Rightarrow> h1[n := (h1 ! n)\<lparr>s_prev := s_prev (h1 ! v)\<rparr>]
         | None \<Rightarrow> h1)"

definition unlink_table ::
  "('w::len) lisp_host \<Rightarrow> 'w prof_state \<Rightarrow> 'w prof_slot list \<Rightarrow> nat \<Rightarrow> nat option list" where
  "unlink_table rt s h v =
     (case s_prev (h ! v) of
        Some p \<Rightarrow> prof_hash_table s
      | None \<Rightarrow> (prof_hash_table s)
          [prof_backtrace_index rt (prof_max_stack_depth s) (s_backtrace (h ! v))
             := s_next (h ! v)])"

definition free_heap :: "('w::len) prof_slot list \<Rightarrow> nat \<Rightarrow> nat option \<Rightarrow> 'w prof_slot list" where
  "free_heap h v fl =
     (unlink_heap h v)[v := (unlink_heap h v ! v)\<lparr>s_used := False, s_next := fl\<rparr>]"

text \<open>
  \<open>first_min h k m\<close>: among the first \<open>k\<close> slots, \<open>m\<close> is the first one of minimal
  count. \<open>fresh_slot\<close> is the slot \<^verbatim>\<open>prof_make_slot\<close> returns.
\<close>

definition first_min :: "('w::len) prof_slot list \<Rightarrow> nat \<Rightarrow> nat \<Rightarrow> bool" where
  "first_min h k m \<longleftrightarrow>
     m < k \<and> (\<forall>j<k. s_count (h ! m) \<le> s_count (h ! j)) \<and>
     (\<forall>j<m. s_count (h ! m) < s_count (h ! j))"

definition fresh_slot :: "nat \<Rightarrow> Lisp_Object list \<Rightarrow> ('w::len) prof_slot" where
  "fresh_slot D bt =
     \<lparr>s_next = None, s_prev = None, s_backtrace = map (\<lambda>i. bt ! i) [0..<D],
      s_count = 0, s_used = True\<rparr>"

text \<open>
  \<open>same_data h' h x\<close>: but for slot \<open>x\<close>, the heaps agree on flags, counts and
  backtraces. \<open>same_ctl s s'\<close>: the states agree on everything but the table, the
  heap, the free list and the count of the others.
\<close>

definition same_data :: "('w::len) prof_slot list \<Rightarrow> 'w prof_slot list \<Rightarrow> nat \<Rightarrow> bool" where
  "same_data h' h x \<longleftrightarrow>
     length h' = length h \<and>
     (\<forall>i<length h. i \<noteq> x \<longrightarrow>
        s_used (h' ! i) = s_used (h ! i) \<and> s_count (h' ! i) = s_count (h ! i) \<and>
        s_backtrace (h' ! i) = s_backtrace (h ! i))"

definition same_ctl :: "('w::len) prof_state \<Rightarrow> 'w prof_state \<Rightarrow> bool" where
  "same_ctl s s' \<longleftrightarrow>
     prof_mode s' = prof_mode s \<and> prof_start_time s' = prof_start_time s \<and>
     prof_sample_interval s' = prof_sample_interval s \<and>
     prof_backtrace s' = prof_backtrace s \<and>
     prof_max_stack_depth s' = prof_max_stack_depth s \<and>
     prof_slot_heap_size s' = prof_slot_heap_size s \<and>
     prof_total_count s' = prof_total_count s \<and>
     profiler_max_stack_depth s' = profiler_max_stack_depth s \<and>
     profiler_slot_heap_size s' = profiler_slot_heap_size s \<and>
     sigprof_handler s' = sigprof_handler s \<and> itimer_prof s' = itimer_prof s \<and>
     sigprof_blocked s' = sigprof_blocked s"

text \<open>
  The result of the loop of \<^verbatim>\<open>prof_ensure_slot\<close> on a chain \<open>xs\<close>, and the chains
  after a new slot \<open>x\<close> has been taken for bucket \<open>b\<close>.
\<close>

fun chain_search ::
  "nat \<Rightarrow> ('w::len) prof_slot list \<Rightarrow> Lisp_Object list \<Rightarrow> nat list \<Rightarrow> nat option
     \<Rightarrow> nat option \<times> nat option" where
  "chain_search D h bt [] prev = (None, prev)"
| "chain_search D h bt (x # xs) prev =
     (if prof_backtrace_equal D bt (s_backtrace (h ! x)) then (Some x, prev)
      else chain_search D h bt xs (Some x))"

definition new_buckets :: "(nat \<Rightarrow> nat list) \<Rightarrow> nat \<Rightarrow> nat \<Rightarrow> nat \<Rightarrow> nat list" where
  "new_buckets B b x =
     (if lastopt None (B b) = Some x then (\<lambda>c. remove1 x (B c))
      else (\<lambda>c. remove1 x (B c))(b := remove1 x (B b) @ [x]))"

section \<open>The counters and the filling of the pool: definitions\<close>

text \<open>
  The equation of the counters as the specification writes it: the total is the sum of
  the counts of the slots marked used plus the count of the others, in the arithmetic of
  \<^verbatim>\<open>unsigned long\<close>.
\<close>

definition counts_balance :: "('w::len) prof_state \<Rightarrow> 'w prof_slot list \<Rightarrow> bool" where
  "counts_balance s h \<longleftrightarrow>
     prof_total_count s = sum_list (map s_count (filter s_used h)) + prof_others_count s"

text \<open>
  The backtrace the handler captures from \<^verbatim>\<open>backtrace_list\<close>: the handler clears the
  buffer before it fills it, so the result is that of a buffer of \<open>D\<close> times \<^verbatim>\<open>nil\<close>.
  The keys of a sequence of samples are the captured backtraces that the handler does
  not discard.
\<close>

definition sample_key ::
  "('w::len) lisp_host \<Rightarrow> nat \<Rightarrow> Lisp_Object list \<Rightarrow> Lisp_Object list" where
  "sample_key rt D backtrace_list = prof_capture rt D backtrace_list (replicate D Qnil)"

definition sample_keys ::
  "('w::len) lisp_host \<Rightarrow> nat \<Rightarrow> Lisp_Object list list \<Rightarrow> Lisp_Object list list" where
  "sample_keys rt D bls = filter (\<lambda>k. \<not> NILP (k ! 0)) (map (sample_key rt D) bls)"

text \<open>
  \<open>sample_evicts rt backtrace_list s\<close>: the handler, run in state \<open>s\<close>, reaches the
  call of \<^verbatim>\<open>prof_evict_min_slot\<close> in \<^verbatim>\<open>prof_allocate_slot\<close>. That is: the first
  element of the captured backtrace is not \<^verbatim>\<open>nil\<close>, the loop of \<^verbatim>\<open>prof_ensure_slot\<close>
  ends without a slot, and \<^verbatim>\<open>prof_free_list\<close> is null. \<open>count_evictions\<close> counts the
  samples of a sequence for which this is the case.
\<close>

definition sample_evicts ::
  "('w::len) lisp_host \<Rightarrow> Lisp_Object list \<Rightarrow> 'w prof_state \<Rightarrow> bool" where
  "sample_evicts rt backtrace_list s =
     (case prof_backtrace s of
        None \<Rightarrow> False
      | Some buf0 \<Rightarrow>
          if length buf0 < prof_max_stack_depth s \<or> length buf0 = 0 then False
          else
            (let buf = prof_capture rt (prof_max_stack_depth s) backtrace_list buf0;
                 s0 = s\<lparr>prof_backtrace := Some buf\<rparr>;
                 head = prof_hash_table s0 ! prof_backtrace_index rt (prof_max_stack_depth s0) buf
             in \<not> NILP (buf ! 0) \<and>
                (case prof_ensure_slot_loop s0 buf head head of
                   Some (None, prev) \<Rightarrow> prof_free_list s0 = None
                 | _ \<Rightarrow> False)))"

fun count_evictions ::
  "('w::len) lisp_host \<Rightarrow> Lisp_Object list list \<Rightarrow> 'w prof_state \<Rightarrow> nat" where
  "count_evictions rt [] s = 0"
| "count_evictions rt (bl # bls) s =
     (if sample_evicts rt bl s then 1 else 0) +
     (case prof_signal_handler rt bl s of
        None \<Rightarrow> 0
      | Some s' \<Rightarrow> count_evictions rt bls s')"

text \<open>
  The slots marked used, and the state of a pool that has not evicted yet: in addition
  to the invariant, the count of the others is zero, every used slot is in the chain of
  its bucket, no two used slots hold the same backtrace, and the backtraces held are
  \<open>K\<close>.
\<close>

definition used_slots :: "('w::len) prof_slot list \<Rightarrow> nat set" where
  "used_slots h = {i. i < length h \<and> s_used (h ! i)}"

definition fill_ok ::
  "('w::len) lisp_host \<Rightarrow> 'w prof_state \<Rightarrow> 'w prof_slot list \<Rightarrow> nat list \<Rightarrow> (nat \<Rightarrow> nat list)
     \<Rightarrow> Lisp_Object list set \<Rightarrow> bool" where
  "fill_ok rt s h F B K \<longleftrightarrow>
     struct_ok rt s h F B {} \<and> count_ok s h {} \<and> 0 < length h \<and>
     0 < prof_max_stack_depth s \<and>
     (\<exists>buf. prof_backtrace s = Some buf \<and> length buf = prof_max_stack_depth s) \<and>
     prof_others_count s = 0 \<and>
     (\<forall>i\<in>used_slots h.
        i \<in> set (B (prof_backtrace_index rt (prof_max_stack_depth s) (s_backtrace (h ! i))))) \<and>
     inj_on (\<lambda>i. s_backtrace (h ! i)) (used_slots h) \<and>
     (\<lambda>i. s_backtrace (h ! i)) ` used_slots h = K"

section \<open>Reports and examples: definitions\<close>

text \<open>
  The entries of a report, as the specification describes them: for a used slot, the
  frames before the first \<^verbatim>\<open>nil\<close> among the first \<^verbatim>\<open>prof_max_stack_depth\<close> ones and
  its count; for the others, the marker \<^verbatim>\<open>t\<close> and their count.
\<close>

definition slot_entry :: "('w::len) lisp_host \<Rightarrow> nat \<Rightarrow> 'w prof_slot \<Rightarrow> Lisp_Object" where
  "slot_entry rt D sl =
     list2 (Flist (takeWhile (\<lambda>x. \<not> NILP x) (take D (s_backtrace sl))))
           (make_number rt (s_count sl))"

definition overflow_entry :: "('w::len) lisp_host \<Rightarrow> 'w prof_state \<Rightarrow> Lisp_Object" where
  "overflow_entry rt s = list2 (list1 Qt) (make_number rt (prof_others_count s))"

text \<open>
  A host for the examples, with 64-bit counters: the hash of a symbol is the length of
  its name, so that \<^verbatim>\<open>car\<close>, \<^verbatim>\<open>cdr\<close> and \<^verbatim>\<open>nth\<close> fall into bucket 3 and \<^verbatim>\<open>cons\<close>
  into bucket 4; every symbol is \<^verbatim>\<open>fboundp\<close>; assertions are compiled in. Fresh memory
  holds the same arbitrary slot everywhere. The examples start from a stack depth of 1
  and two slots, with sampling started; \<open>demo_state es\<close> is the state after the
  events \<open>es\<close> that follow.
\<close>

definition demo_host :: "64 lisp_host" where
  "demo_host =
     \<lparr>XUINT = (\<lambda>x. case x of Symbol n \<Rightarrow> length n | _ \<Rightarrow> 0),
      SXHASH_COMBINE = (\<lambda>x h. x + 16 * h),
      Ffboundp = (\<lambda>x. Qt),
      XINT = (\<lambda>x. case x of Number k \<Rightarrow> k | _ \<Rightarrow> 0),
      make_number = (\<lambda>c. Number (uint c)),
      ENABLE_CHECKING = True\<rparr>"

definition demo_junk :: "nat \<Rightarrow> 64 prof_slot" where
  "demo_junk i =
     \<lparr>s_next = Some 7, s_prev = Some 9, s_backtrace = [Qt], s_count = 5, s_used = True\<rparr>"

definition demo_start :: "prof_event list" where
  "demo_start = [Configure 1 2, Start_sampling True True (Number 1) (Number 10) [] []]"

definition demo_state :: "prof_event list \<Rightarrow> 64 prof_state" where
  "demo_state es = the (prof_run demo_host demo_junk (demo_start @ es) (syms_of_profiler Qnil))"

text \<open>
  For the runs in which the handler interrupts \<^verbatim>\<open>prof_init\<close>: a host with assertions
  compiled out, fresh memory that is all zero, and the events that follow the start:
  two samples that fill both slots, a reset, and a second start during which the
  handler runs once, for a sample \<^verbatim>\<open>car\<close>, after the first block of \<^verbatim>\<open>prof_init\<close>.
\<close>

definition demo_host_unchecked :: "64 lisp_host" where
  "demo_host_unchecked = demo_host\<lparr>ENABLE_CHECKING := False\<rparr>"

definition demo_zero :: "nat \<Rightarrow> 64 prof_slot" where
  "demo_zero i =
     \<lparr>s_next = None, s_prev = None, s_backtrace = [], s_count = 0, s_used = False\<rparr>"

definition demo_state_unchecked :: "prof_event list \<Rightarrow> 64 prof_state" where
  "demo_state_unchecked es =
     the (prof_run demo_host_unchecked demo_zero (demo_start @ es) (syms_of_profiler Qnil))"

definition demo_restart :: "prof_event list" where
  "demo_restart =
     [Signal [Symbol ''car''], Signal [Symbol ''cons''], Reset,
      Start_sampling True True (Number 3) (Number 10) [[Symbol ''car'']] []]"

section \<open>Basic lemmas\<close>

lemma get_slot_Some:
  "prof_slot_heap s = Some h \<Longrightarrow> i < length h \<Longrightarrow> get_slot s i = Some (h ! i)"
  by (simp add: get_slot_def)

lemma upd_slot_Some:
  "prof_slot_heap s = Some h \<Longrightarrow> i < length h \<Longrightarrow>
   upd_slot i f s = Some (s\<lparr>prof_slot_heap := Some (h[i := f (h ! i)])\<rparr>)"
  by (simp add: upd_slot_def)

lemma path_append:
  "path h p (xs @ ys) q = (\<exists>m. path h p xs m \<and> path h m ys q)"
  by (induction xs arbitrary: p) auto

lemma prevs_append:
  "prevs h pr (xs @ ys) = (prevs h pr xs \<and> prevs h (lastopt pr xs) ys)"
  by (induction xs arbitrary: pr) (auto simp: lastopt_def)

lemma path_upd_notin:
  "i \<notin> set xs \<Longrightarrow> path (h[i := sl]) p xs q = path h p xs q"
  by (induction xs arbitrary: p) auto

lemma path_upd_same_next:
  "i < length h \<Longrightarrow> s_next sl = s_next (h ! i) \<Longrightarrow> path (h[i := sl]) p xs q = path h p xs q"
  by (induction xs arbitrary: p) (auto simp: nth_list_update)

lemma prevs_upd_notin:
  "i \<notin> set xs \<Longrightarrow> prevs (h[i := sl]) pr xs = prevs h pr xs"
  by (induction xs arbitrary: pr) auto

lemma prevs_upd_same_prev:
  "i < length h \<Longrightarrow> s_prev sl = s_prev (h ! i) \<Longrightarrow> prevs (h[i := sl]) pr xs = prevs h pr xs"
  by (induction xs arbitrary: pr) (auto simp: nth_list_update)

lemma path_in_range: "path h p xs q \<Longrightarrow> x \<in> set xs \<Longrightarrow> x < length h"
  by (induction xs arbitrary: p) auto

lemma path_functional: "path h p xs None \<Longrightarrow> path h p ys None \<Longrightarrow> xs = ys"
proof (induction xs arbitrary: p ys)
  case Nil
  then show ?case by (cases ys) auto
next
  case (Cons x xs)
  then show ?case by (cases ys) auto
qed

lemma path_set_last_next:
  "path h p (L0 @ [p0]) q \<Longrightarrow> p0 \<notin> set L0 \<Longrightarrow>
   path (h[p0 := (h ! p0)\<lparr>s_next := q'\<rparr>]) p (L0 @ [p0]) q'"
  by (auto simp: path_append path_upd_notin)

lemma prevs_set_first_prev:
  "prevs h pr0 (n # L3) \<Longrightarrow> n \<notin> set L3 \<Longrightarrow> n < length h \<Longrightarrow>
   prevs (h[n := (h ! n)\<lparr>s_prev := pr\<rparr>]) pr (n # L3)"
  by (auto simp: prevs_upd_notin)

lemma prof_unlink_slot_eq:
  assumes h: "prof_slot_heap s = Some h" and v: "v < length h"
    and p: "\<And>p. s_prev (h ! v) = Some p \<Longrightarrow> p < length h"
    and n': "\<And>n. s_next (h ! v) = Some n \<Longrightarrow> n < length h"
  shows "prof_unlink_slot rt v s =
         Some (s\<lparr>prof_hash_table := unlink_table rt s h v,
                 prof_slot_heap := Some (unlink_heap h v)\<rparr>)"
proof (cases "s_prev (h ! v)")
  case None
  show ?thesis
  proof (cases "s_next (h ! v)")
    case N2: None
    with None h v show ?thesis
      by (simp add: prof_unlink_slot_def get_slot_def upd_slot_def unlink_heap_def unlink_table_def)
  next
    case (Some n)
    with None h v n'[of n] show ?thesis
      by (simp add: prof_unlink_slot_def get_slot_def upd_slot_def unlink_heap_def unlink_table_def)
  qed
next
  case (Some p)
  note P = this
  have pl: "p < length h" using p[OF Some] .
  show ?thesis
  proof (cases "s_next (h ! v)")
    case None
    with P h v pl show ?thesis
      by (simp add: prof_unlink_slot_def get_slot_def upd_slot_def unlink_heap_def unlink_table_def
          nth_list_update)
  next
    case (Some n)
    with P h v pl n'[of n] show ?thesis
      by (simp add: prof_unlink_slot_def get_slot_def upd_slot_def unlink_heap_def unlink_table_def
          nth_list_update)
  qed
qed

lemma path_cong_next:
  "path h p xs q \<Longrightarrow> length h' = length h \<Longrightarrow>
   (\<forall>x\<in>set xs. s_next (h' ! x) = s_next (h ! x)) \<Longrightarrow> path h' p xs q"
  by (induction xs arbitrary: p) auto

lemma prevs_cong_prev:
  "prevs h pr xs \<Longrightarrow> (\<forall>x\<in>set xs. s_prev (h' ! x) = s_prev (h ! x)) \<Longrightarrow>
   prevs h' pr xs"
  by (induction xs arbitrary: pr) auto

lemma nth_list_update_gen:
  "xs[k := y] ! i = (if i = k \<and> k < length xs then y else xs ! i)"
  by (cases "k < length xs") (auto simp: nth_list_update list_update_beyond)

lemma length_unlink_heap [simp]: "length (unlink_heap h v) = length h"
  by (simp add: unlink_heap_def Let_def split: option.splits)

lemma unlink_heap_data:
  "i < length h \<Longrightarrow>
   s_used (unlink_heap h v ! i) = s_used (h ! i) \<and>
   s_count (unlink_heap h v ! i) = s_count (h ! i) \<and>
   s_backtrace (unlink_heap h v ! i) = s_backtrace (h ! i)"
  by (simp add: unlink_heap_def Let_def nth_list_update_gen split: option.splits)

lemma unlink_heap_next:
  "i < length h \<Longrightarrow>
   s_next (unlink_heap h v ! i) =
     (if s_prev (h ! v) = Some i then s_next (h ! v) else s_next (h ! i))"
  by (auto simp add: unlink_heap_def Let_def nth_list_update_gen split: option.splits)

lemma unlink_heap_prev:
  "i < length h \<Longrightarrow> v < length h \<Longrightarrow>
   s_prev (unlink_heap h v ! i) =
     (if s_next (h ! v) = Some i then s_prev (h ! v) else s_prev (h ! i))"
  by (auto simp add: unlink_heap_def Let_def nth_list_update_gen split: option.splits)

lemma unlink_heap_linked:
  assumes pa: "path h hd0 (L1 @ v # L2) None"
    and pr: "prevs h None (L1 @ v # L2)"
    and di: "distinct (L1 @ v # L2)"
  shows "path (unlink_heap h v) (if L1 = [] then s_next (h ! v) else hd0) (L1 @ L2) None"
    and "prevs (unlink_heap h v) None (L1 @ L2)"
    and "s_prev (h ! v) = lastopt None L1"
proof -
  let ?h' = "unlink_heap h v"
  let ?nv = "s_next (h ! v)"
  from pa have p1: "path h hd0 L1 (Some v)" and vl: "v < length h" and p2: "path h ?nv L2 None"
    by (auto simp: path_append)
  from pr have r1: "prevs h None L1" and pv: "s_prev (h ! v) = lastopt None L1"
    and r2: "prevs h (Some v) L2"
    by (auto simp: prevs_append)
  show "s_prev (h ! v) = lastopt None L1" by fact
  have inr: "\<And>x. x \<in> set (L1 @ v # L2) \<Longrightarrow> x < length h"
    using path_in_range[OF pa] by blast
  have q2: "path ?h' ?nv L2 None"
  proof -
    have "\<forall>x\<in>set L2. s_next (?h' ! x) = s_next (h ! x)"
    proof
      fix x assume x: "x \<in> set L2"
      have "s_prev (h ! v) \<noteq> Some x"
      proof
        assume "s_prev (h ! v) = Some x"
        with pv have "L1 \<noteq> []" and "x = last L1"
          by (auto simp: lastopt_def split: if_splits)
        then have "x \<in> set L1" by simp
        with x di show False by auto
      qed
      moreover have "x < length h" using inr[of x] x by simp
      ultimately show "s_next (?h' ! x) = s_next (h ! x)" by (simp add: unlink_heap_next)
    qed
    then show ?thesis using path_cong_next[OF p2, of ?h'] by simp
  qed
  have q1: "path ?h' (if L1 = [] then ?nv else hd0) L1 ?nv"
  proof (cases "L1 = []")
    case True
    then show ?thesis by simp
  next
    case False
    then obtain L0 p where L1: "L1 = L0 @ [p]"
      by (metis rev_exhaust)
    from p1 L1 have a: "path h hd0 L0 (Some p)" and pl: "p < length h"
      by (auto simp: path_append)
    from pv L1 have pvp: "s_prev (h ! v) = Some p" by (simp add: lastopt_def)
    have "\<forall>x\<in>set L0. s_next (?h' ! x) = s_next (h ! x)"
    proof
      fix x assume x: "x \<in> set L0"
      then have "x \<noteq> p" using di L1 by auto
      moreover have "x < length h" using inr[of x] x L1 by simp
      ultimately show "s_next (?h' ! x) = s_next (h ! x)"
        using pvp by (simp add: unlink_heap_next)
    qed
    then have "path ?h' hd0 L0 (Some p)" using path_cong_next[OF a, of ?h'] by simp
    moreover have "s_next (?h' ! p) = ?nv" using pl pvp by (simp add: unlink_heap_next)
    ultimately show ?thesis using L1 pl by (simp add: path_append)
  qed
  from q1 q2 show "path ?h' (if L1 = [] then ?nv else hd0) (L1 @ L2) None"
    by (auto simp: path_append)
  have s1: "prevs ?h' None L1"
  proof -
    have "\<forall>x\<in>set L1. s_prev (?h' ! x) = s_prev (h ! x)"
    proof
      fix x assume x: "x \<in> set L1"
      then have xl: "x < length h" using inr[of x] by simp
      have "s_next (h ! v) \<noteq> Some x"
      proof
        assume "s_next (h ! v) = Some x"
        with p2 have "x \<in> set L2" by (cases L2) auto
        with x di show False by auto
      qed
      then show "s_prev (?h' ! x) = s_prev (h ! x)" using xl vl by (simp add: unlink_heap_prev)
    qed
    then show ?thesis using prevs_cong_prev[OF r1, of ?h'] by simp
  qed
  have s2: "prevs ?h' (lastopt None L1) L2"
  proof (cases L2)
    case Nil
    then show ?thesis by simp
  next
    case (Cons n L3)
    with p2 have nv: "?nv = Some n" and nl: "n < length h" by auto
    have "\<forall>x\<in>set L3. s_prev (?h' ! x) = s_prev (h ! x)"
    proof
      fix x assume x: "x \<in> set L3"
      then have "x \<noteq> n" using di Cons by auto
      moreover have "x < length h" using inr[of x] x Cons by simp
      ultimately show "s_prev (?h' ! x) = s_prev (h ! x)"
        using nv vl by (simp add: unlink_heap_prev)
    qed
    moreover have "prevs h (Some n) L3" using r2 Cons by simp
    ultimately have "prevs ?h' (Some n) L3" using prevs_cong_prev[of h "Some n" L3 ?h'] by simp
    moreover have "s_prev (?h' ! n) = lastopt None L1"
      using nl vl nv pv by (simp add: unlink_heap_prev)
    ultimately show ?thesis using Cons by simp
  qed
  from s1 s2 show "prevs ?h' None (L1 @ L2)" by (simp add: prevs_append)
qed

lemma unlink_heap_path_other:
  assumes "path h p xs q" and "\<forall>x\<in>set xs. x < length h \<and> s_prev (h ! v) \<noteq> Some x"
  shows "path (unlink_heap h v) p xs q"
  using path_cong_next[OF assms(1), of "unlink_heap h v"] assms(2)
  by (simp add: unlink_heap_next)

lemma unlink_heap_prevs_other:
  assumes "prevs h pr xs" and "v < length h"
    and "\<forall>x\<in>set xs. x < length h \<and> s_next (h ! v) \<noteq> Some x"
  shows "prevs (unlink_heap h v) pr xs"
  using prevs_cong_prev[OF assms(1), of "unlink_heap h v"] assms(2,3)
  by (simp add: unlink_heap_prev)

lemma path_next_in:
  "path h p (L1 @ v # L2) None \<Longrightarrow> s_next (h ! v) = Some n \<Longrightarrow> n \<in> set L2"
  by (cases L2) (auto simp: path_append)

lemma prevs_prev_in:
  "prevs h None (L1 @ v # L2) \<Longrightarrow> s_prev (h ! v) = Some p \<Longrightarrow> p \<in> set L1"
  by (cases "L1 = []") (auto simp: prevs_append lastopt_def)

lemma struct_ok_bucket:
  "struct_ok rt s h F B X \<Longrightarrow> b < PROF_HASH_TABLE_SIZE \<Longrightarrow>
   path h (prof_hash_table s ! b) (B b) None \<and> prevs h None (B b) \<and> distinct (B b)"
  by (simp add: struct_ok_def)

lemma struct_ok_member:
  "struct_ok rt s h F B X \<Longrightarrow> b < PROF_HASH_TABLE_SIZE \<Longrightarrow> x \<in> set (B b) \<Longrightarrow>
   x < length h \<and> s_used (h ! x) \<and> x \<notin> X \<and>
   prof_backtrace_index rt (prof_max_stack_depth s) (s_backtrace (h ! x)) = b"
  by (simp add: struct_ok_def)

lemma struct_ok_orphan:
  "struct_ok rt s h F B X \<Longrightarrow> i < length h \<Longrightarrow> s_used (h ! i) \<Longrightarrow> i \<notin> X \<Longrightarrow>
   \<forall>b<PROF_HASH_TABLE_SIZE. i \<notin> set (B b) \<Longrightarrow>
   s_next (h ! i) = Some i \<and> s_prev (h ! i) = Some i"
  by (simp add: struct_ok_def)

lemma struct_ok_free:
  "struct_ok rt s h F B X \<Longrightarrow>
   path h (prof_free_list s) F None \<and> distinct F \<and>
   set F = {i. i < length h \<and> \<not> s_used (h ! i)}"
  by (simp add: struct_ok_def)

lemma struct_ok_neighbours:
  assumes ok: "struct_ok rt s h F B {}" and v: "v < length h" and u: "s_used (h ! v)"
  shows "s_prev (h ! v) = Some p \<Longrightarrow>
           p = v \<or> (\<exists>b<PROF_HASH_TABLE_SIZE. p \<in> set (B b) \<and> v \<in> set (B b))"
    and "s_next (h ! v) = Some n \<Longrightarrow>
           n = v \<or> (\<exists>b<PROF_HASH_TABLE_SIZE. n \<in> set (B b) \<and> v \<in> set (B b))"
proof -
  show "s_prev (h ! v) = Some p \<Longrightarrow>
           p = v \<or> (\<exists>b<PROF_HASH_TABLE_SIZE. p \<in> set (B b) \<and> v \<in> set (B b))"
  proof (cases "\<exists>b<PROF_HASH_TABLE_SIZE. v \<in> set (B b)")
    case True
    assume pv: "s_prev (h ! v) = Some p"
    from True obtain b where b: "b < PROF_HASH_TABLE_SIZE" and vb: "v \<in> set (B b)" by blast
    from vb obtain L1 L2 where L: "B b = L1 @ v # L2" by (meson split_list)
    from struct_ok_bucket[OF ok b] L have "prevs h None (L1 @ v # L2)" by simp
    from prevs_prev_in[OF this pv] have "p \<in> set (B b)" using L by simp
    with b vb show ?thesis by blast
  next
    case False
    assume pv: "s_prev (h ! v) = Some p"
    from False struct_ok_orphan[OF ok v u] pv show ?thesis by simp
  qed
  show "s_next (h ! v) = Some n \<Longrightarrow>
           n = v \<or> (\<exists>b<PROF_HASH_TABLE_SIZE. n \<in> set (B b) \<and> v \<in> set (B b))"
  proof (cases "\<exists>b<PROF_HASH_TABLE_SIZE. v \<in> set (B b)")
    case True
    assume nv: "s_next (h ! v) = Some n"
    from True obtain b where b: "b < PROF_HASH_TABLE_SIZE" and vb: "v \<in> set (B b)" by blast
    from vb obtain L1 L2 where L: "B b = L1 @ v # L2" by (meson split_list)
    from struct_ok_bucket[OF ok b] L have "path h (prof_hash_table s ! b) (L1 @ v # L2) None"
      by simp
    from path_next_in[OF this nv] have "n \<in> set (B b)" using L by simp
    with b vb show ?thesis by blast
  next
    case False
    assume nv: "s_next (h ! v) = Some n"
    from False struct_ok_orphan[OF ok v u] nv show ?thesis by simp
  qed
qed

lemma struct_ok_neighbours_used:
  assumes ok: "struct_ok rt s h F B {}" and v: "v < length h" and u: "s_used (h ! v)"
  shows "s_prev (h ! v) = Some p \<Longrightarrow> p < length h \<and> s_used (h ! p)"
    and "s_next (h ! v) = Some n \<Longrightarrow> n < length h \<and> s_used (h ! n)"
proof -
  assume "s_prev (h ! v) = Some p"
  from struct_ok_neighbours(1)[OF ok v u this] struct_ok_member[OF ok] v u
  show "p < length h \<and> s_used (h ! p)" by blast
next
  assume "s_next (h ! v) = Some n"
  from struct_ok_neighbours(2)[OF ok v u this] struct_ok_member[OF ok] v u
  show "n < length h \<and> s_used (h ! n)" by blast
qed

lemma prof_unlink_slot_struct_eq:
  assumes ok: "struct_ok rt s h F B {}" and v: "v < length h" and u: "s_used (h ! v)"
  shows "prof_unlink_slot rt v s =
         Some (s\<lparr>prof_hash_table := unlink_table rt s h v,
                 prof_slot_heap := Some (unlink_heap h v)\<rparr>)"
proof (rule prof_unlink_slot_eq)
  show "prof_slot_heap s = Some h" using ok by (simp add: struct_ok_def)
  show "v < length h" by fact
  show "\<And>p. s_prev (h ! v) = Some p \<Longrightarrow> p < length h"
    using struct_ok_neighbours_used(1)[OF ok v u] by blast
  show "\<And>n. s_next (h ! v) = Some n \<Longrightarrow> n < length h"
    using struct_ok_neighbours_used(2)[OF ok v u] by blast
qed

lemma length_unlink_table [simp]:
  "length (unlink_table rt s h v) = length (prof_hash_table s)"
  by (simp add: unlink_table_def split: option.splits)

lemma unlink_struct_ok:
  assumes ok: "struct_ok rt s h F B {}" and v: "v < length h" and u: "s_used (h ! v)"
  shows "struct_ok rt
           (s\<lparr>prof_hash_table := unlink_table rt s h v,
              prof_slot_heap := Some (unlink_heap h v)\<rparr>)
           (unlink_heap h v) F (\<lambda>b. remove1 v (B b)) {v}"
proof -
  let ?h' = "unlink_heap h v"
  let ?ht' = "unlink_table rt s h v"
  let ?T = PROF_HASH_TABLE_SIZE
  let ?idx = "\<lambda>x. prof_backtrace_index rt (prof_max_stack_depth s) (s_backtrace (h ! x))"
  note nb = struct_ok_neighbours[OF ok v u]
  note nbu = struct_ok_neighbours_used[OF ok v u]
  note mem = struct_ok_member[OF ok]
  note fr = struct_ok_free[OF ok]
  have htl: "length (prof_hash_table s) = ?T" using ok by (simp add: struct_ok_def)
  have c_free: "path ?h' (prof_free_list s) F None"
  proof (rule unlink_heap_path_other)
    show "path h (prof_free_list s) F None" using fr by simp
    show "\<forall>x\<in>set F. x < length h \<and> s_prev (h ! v) \<noteq> Some x"
    proof
      fix x assume "x \<in> set F"
      with fr have "x < length h" "\<not> s_used (h ! x)" by auto
      with nbu(1)[of x] show "x < length h \<and> s_prev (h ! v) \<noteq> Some x" by blast
    qed
  qed
  have c_set: "set F = {i. i < length ?h' \<and> \<not> s_used (?h' ! i)}"
  proof -
    have "{i. i < length ?h' \<and> \<not> s_used (?h' ! i)} = {i. i < length h \<and> \<not> s_used (h ! i)}"
      by (auto simp: unlink_heap_data)
    with fr show ?thesis by simp
  qed
  have c_bt: "\<forall>i<length ?h'. length (s_backtrace (?h' ! i)) = prof_max_stack_depth s"
    using ok by (simp add: struct_ok_def unlink_heap_data)
  have c_bucket: "path ?h' (?ht' ! b) (remove1 v (B b)) None \<and>
        prevs ?h' None (remove1 v (B b)) \<and> distinct (remove1 v (B b)) \<and>
        (\<forall>x\<in>set (remove1 v (B b)). x < length ?h' \<and> s_used (?h' ! x) \<and> x \<notin> {v} \<and>
           prof_backtrace_index rt (prof_max_stack_depth s) (s_backtrace (?h' ! x)) = b)"
    if b: "b < ?T" for b
  proof -
    note bk = struct_ok_bucket[OF ok b]
    have elems: "\<forall>x\<in>set (remove1 v (B b)). x < length ?h' \<and> s_used (?h' ! x) \<and> x \<notin> {v} \<and>
           prof_backtrace_index rt (prof_max_stack_depth s) (s_backtrace (?h' ! x)) = b"
    proof
      fix x assume x: "x \<in> set (remove1 v (B b))"
      then have xb: "x \<in> set (B b)" and "x \<noteq> v" using bk by auto
      with mem[OF b xb] show "x < length ?h' \<and> s_used (?h' ! x) \<and> x \<notin> {v} \<and>
           prof_backtrace_index rt (prof_max_stack_depth s) (s_backtrace (?h' ! x)) = b"
        by (simp add: unlink_heap_data)
    qed
    have dist: "distinct (remove1 v (B b))" using bk by simp
    show ?thesis
    proof (cases "v \<in> set (B b)")
      case True
      then obtain L1 L2 where L: "B b = L1 @ v # L2" by (meson split_list)
      from bk L have pa: "path h (prof_hash_table s ! b) (L1 @ v # L2) None"
        and pr: "prevs h None (L1 @ v # L2)" and di: "distinct (L1 @ v # L2)" by simp_all
      from di have rm: "remove1 v (B b) = L1 @ L2" using L by (simp add: remove1_append)
      note ul = unlink_heap_linked[OF pa pr di]
      have vidx: "?idx v = b" using mem[OF b True] by simp
      have "?ht' ! b = (if L1 = [] then s_next (h ! v) else prof_hash_table s ! b)"
        using ul(3) vidx b htl
        by (auto simp: unlink_table_def lastopt_def split: option.splits)
      with ul(1,2) rm dist elems show ?thesis by simp
    next
      case False
      then have rm: "remove1 v (B b) = B b" by (simp add: remove1_idem)
      have np: "\<forall>x\<in>set (B b). x < length h \<and> s_prev (h ! v) \<noteq> Some x"
      proof
        fix x assume xb: "x \<in> set (B b)"
        have "s_prev (h ! v) \<noteq> Some x"
        proof
          assume "s_prev (h ! v) = Some x"
          from nb(1)[OF this] show False
          proof
            assume "x = v" with xb False show False by simp
          next
            assume "\<exists>b'<?T. x \<in> set (B b') \<and> v \<in> set (B b')"
            then obtain b' where b': "b' < ?T" "x \<in> set (B b')" "v \<in> set (B b')" by blast
            from mem[OF b xb] mem[OF b'(1) b'(2)] have "b' = b" by simp
            with b'(3) False show False by simp
          qed
        qed
        with mem[OF b xb] show "x < length h \<and> s_prev (h ! v) \<noteq> Some x" by simp
      qed
      have nn: "\<forall>x\<in>set (B b). x < length h \<and> s_next (h ! v) \<noteq> Some x"
      proof
        fix x assume xb: "x \<in> set (B b)"
        have "s_next (h ! v) \<noteq> Some x"
        proof
          assume "s_next (h ! v) = Some x"
          from nb(2)[OF this] show False
          proof
            assume "x = v" with xb False show False by simp
          next
            assume "\<exists>b'<?T. x \<in> set (B b') \<and> v \<in> set (B b')"
            then obtain b' where b': "b' < ?T" "x \<in> set (B b')" "v \<in> set (B b')" by blast
            from mem[OF b xb] mem[OF b'(1) b'(2)] have "b' = b" by simp
            with b'(3) False show False by simp
          qed
        qed
        with mem[OF b xb] show "x < length h \<and> s_next (h ! v) \<noteq> Some x" by simp
      qed
      have p1: "path ?h' (prof_hash_table s ! b) (B b) None"
        using unlink_heap_path_other[OF _ np] bk by blast
      have p2: "prevs ?h' None (B b)"
        using unlink_heap_prevs_other[OF _ v nn] bk by blast
      have "?ht' ! b = prof_hash_table s ! b"
      proof (cases "s_prev (h ! v)")
        case None
        have "?idx v \<noteq> b"
        proof
          assume e: "?idx v = b"
          have "\<exists>b'<?T. v \<in> set (B b')"
          proof (rule ccontr)
            assume "\<not> (\<exists>b'<?T. v \<in> set (B b'))"
            with struct_ok_orphan[OF ok v u] None show False by simp
          qed
          then obtain b' where b': "b' < ?T" "v \<in> set (B b')" by blast
          with mem[OF b'] e have "b' = b" by simp
          with b'(2) False show False by simp
        qed
        with None show ?thesis by (simp add: unlink_table_def)
      next
        case (Some p)
        then show ?thesis by (simp add: unlink_table_def)
      qed
      with p1 p2 rm dist elems show ?thesis by simp
    qed
  qed
  have c_orph: "s_next (?h' ! i) = Some i \<and> s_prev (?h' ! i) = Some i"
    if i: "i < length ?h'" and iu: "s_used (?h' ! i)" and iv: "i \<notin> {v}"
      and nl: "\<forall>b<?T. i \<notin> set (remove1 v (B b))" for i
  proof -
    from i have il: "i < length h" by simp
    from iu il have iu': "s_used (h ! i)" by (simp add: unlink_heap_data)
    from nl iv have nl': "\<forall>b<?T. i \<notin> set (B b)" by auto
    from struct_ok_orphan[OF ok il iu' _ nl']
    have self: "s_next (h ! i) = Some i" "s_prev (h ! i) = Some i" by simp_all
    have "s_prev (h ! v) \<noteq> Some i" using nb(1)[of i] iv nl' by blast
    moreover have "s_next (h ! v) \<noteq> Some i" using nb(2)[of i] iv nl' by blast
    ultimately show ?thesis using self il v by (simp add: unlink_heap_next unlink_heap_prev)
  qed
  have c_X: "{v} \<subseteq> {i. i < length ?h' \<and> s_used (?h' ! i)}"
    using v u by (simp add: unlink_heap_data)
  have c1: "prof_slot_heap_size s = length ?h'" using ok by (simp add: struct_ok_def)
  show ?thesis
    unfolding struct_ok_def
    using c1 htl c_bt c_free fr c_set c_bucket c_orph c_X
    by simp
qed

lemma struct_ok_change_slot:
  assumes ok: "struct_ok rt s h F B X"
    and x: "x < length h"
    and xB: "\<forall>b<PROF_HASH_TABLE_SIZE. x \<notin> set (B b)"
    and lb: "length (s_backtrace sl) = prof_max_stack_depth s"
    and F1: "path (h[x := sl]) fl' F' None"
    and F2: "distinct F'"
    and F3: "set F' = {i. i < length h \<and> \<not> s_used (h[x := sl] ! i)}"
    and X1: "X' \<subseteq> {i. i < length h \<and> s_used (h[x := sl] ! i)}"
    and X2: "X' - {x} = X - {x}"
    and self: "s_used sl \<Longrightarrow> x \<notin> X' \<Longrightarrow> s_next sl = Some x \<and> s_prev sl = Some x"
  shows "struct_ok rt (s\<lparr>prof_slot_heap := Some (h[x := sl]), prof_free_list := fl'\<rparr>)
           (h[x := sl]) F' B X'"
proof -
  let ?h' = "h[x := sl]"
  let ?T = PROF_HASH_TABLE_SIZE
  note mem = struct_ok_member[OF ok]
  have c_bt: "\<forall>i<length ?h'. length (s_backtrace (?h' ! i)) = prof_max_stack_depth s"
  proof -
    have "\<forall>i<length h. length (s_backtrace (h ! i)) = prof_max_stack_depth s"
      using ok by (simp add: struct_ok_def)
    with lb x show ?thesis by (simp add: nth_list_update)
  qed
  have c_bucket: "path ?h' (prof_hash_table s ! b) (B b) None \<and>
        prevs ?h' None (B b) \<and> distinct (B b) \<and>
        (\<forall>y\<in>set (B b). y < length ?h' \<and> s_used (?h' ! y) \<and> y \<notin> X' \<and>
           prof_backtrace_index rt (prof_max_stack_depth s) (s_backtrace (?h' ! y)) = b)"
    if b: "b < ?T" for b
  proof -
    note bk = struct_ok_bucket[OF ok b]
    from xB b have xb: "x \<notin> set (B b)" by simp
    have "\<forall>y\<in>set (B b). y < length ?h' \<and> s_used (?h' ! y) \<and> y \<notin> X' \<and>
           prof_backtrace_index rt (prof_max_stack_depth s) (s_backtrace (?h' ! y)) = b"
    proof
      fix y assume y: "y \<in> set (B b)"
      with xb have yx: "y \<noteq> x" by auto
      from mem[OF b y] have "y \<notin> X" by simp
      with X2 yx have "y \<notin> X'" by blast
      with mem[OF b y] yx show "y < length ?h' \<and> s_used (?h' ! y) \<and> y \<notin> X' \<and>
           prof_backtrace_index rt (prof_max_stack_depth s) (s_backtrace (?h' ! y)) = b"
        by simp
    qed
    with bk xb show ?thesis by (simp add: path_upd_notin prevs_upd_notin)
  qed
  have c_orph: "s_next (?h' ! i) = Some i \<and> s_prev (?h' ! i) = Some i"
    if i: "i < length ?h'" and iu: "s_used (?h' ! i)" and iX: "i \<notin> X'"
      and nl: "\<forall>b<?T. i \<notin> set (B b)" for i
  proof (cases "i = x")
    case True
    with iu x have "s_used sl" by simp
    from self[OF this] iX True x show ?thesis by simp
  next
    case False
    with iX X2 have "i \<notin> X" by blast
    with struct_ok_orphan[OF ok _ _ this nl] i iu False show ?thesis by simp
  qed
  have c0: "prof_slot_heap_size s = length ?h'" "length (prof_hash_table s) = ?T"
    using ok by (simp_all add: struct_ok_def)
  have X1': "X' \<subseteq> {i. i < length ?h' \<and> s_used (?h' ! i)}" using X1 by simp
  have F3': "set F' = {i. i < length ?h' \<and> \<not> s_used (?h' ! i)}" using F3 by simp
  show ?thesis
    unfolding struct_ok_def
    using c0 c_bt F1 F2 F3' c_bucket c_orph X1'
    by simp
qed

lemma struct_ok_exempt_notin:
  "struct_ok rt s h F B X \<Longrightarrow> x \<in> X \<Longrightarrow>
   x < length h \<and> s_used (h ! x) \<and> x \<notin> set F \<and> (\<forall>b<PROF_HASH_TABLE_SIZE. x \<notin> set (B b))"
  by (auto simp: struct_ok_def)

lemma struct_ok_fields:
  "prof_slot_heap s' = prof_slot_heap s \<Longrightarrow> prof_slot_heap_size s' = prof_slot_heap_size s \<Longrightarrow>
   prof_hash_table s' = prof_hash_table s \<Longrightarrow>
   prof_max_stack_depth s' = prof_max_stack_depth s \<Longrightarrow>
   prof_free_list s' = prof_free_list s \<Longrightarrow>
   struct_ok rt s' h F B X = struct_ok rt s h F B X"
  by (simp add: struct_ok_def)

lemma struct_ok_basic:
  "struct_ok rt s h F B X \<Longrightarrow>
   prof_slot_heap s = Some h \<and> prof_slot_heap_size s = length h \<and>
   length (prof_hash_table s) = PROF_HASH_TABLE_SIZE \<and>
   (\<forall>i<length h. length (s_backtrace (h ! i)) = prof_max_stack_depth s)"
  by (simp add: struct_ok_def)

lemma prof_free_slot_eq:
  assumes ok: "struct_ok rt s h F B {}" and v: "v < length h" and u: "s_used (h ! v)"
  shows "prof_free_slot rt v s =
         Some (s\<lparr>prof_hash_table := unlink_table rt s h v,
                 prof_slot_heap := Some (free_heap h v (prof_free_list s)),
                 prof_free_list := Some v\<rparr>)"
proof -
  have hp: "prof_slot_heap s = Some h" using ok by (simp add: struct_ok_def)
  show ?thesis
    using v u hp
    by (simp add: prof_free_slot_def get_slot_def eassert_def upd_slot_def free_heap_def
        prof_unlink_slot_struct_eq[OF ok v u])
qed

lemma free_struct_ok:
  assumes ok: "struct_ok rt s h F B {}" and v: "v < length h" and u: "s_used (h ! v)"
  shows "struct_ok rt
           (s\<lparr>prof_hash_table := unlink_table rt s h v,
              prof_slot_heap := Some (free_heap h v (prof_free_list s)),
              prof_free_list := Some v\<rparr>)
           (free_heap h v (prof_free_list s)) (v # F) (\<lambda>b. remove1 v (B b)) {}"
proof -
  let ?s1 = "s\<lparr>prof_hash_table := unlink_table rt s h v,
              prof_slot_heap := Some (unlink_heap h v)\<rparr>"
  let ?h1 = "unlink_heap h v"
  let ?sl = "(?h1 ! v)\<lparr>s_used := False, s_next := prof_free_list s\<rparr>"
  have ok1: "struct_ok rt ?s1 ?h1 F (\<lambda>b. remove1 v (B b)) {v}"
    by (rule unlink_struct_ok[OF ok v u])
  note fr = struct_ok_free[OF ok1]
  note ex = struct_ok_exempt_notin[OF ok1, of v]
  have vF: "v \<notin> set F" using ex by simp
  have "struct_ok rt (?s1\<lparr>prof_slot_heap := Some (?h1[v := ?sl]), prof_free_list := Some v\<rparr>)
          (?h1[v := ?sl]) (v # F) (\<lambda>b. remove1 v (B b)) {}"
  proof (rule struct_ok_change_slot[OF ok1])
    show "v < length ?h1" using v by simp
    show "\<forall>b<PROF_HASH_TABLE_SIZE. v \<notin> set (remove1 v (B b))" using ex by simp
    show "length (s_backtrace ?sl) = prof_max_stack_depth ?s1"
      using struct_ok_basic[OF ok1] v by simp
    show "path (?h1[v := ?sl]) (Some v) (v # F) None"
      using fr vF v by (simp add: path_upd_notin)
    show "distinct (v # F)" using fr vF by simp
    show "set (v # F) = {i. i < length ?h1 \<and> \<not> s_used (?h1[v := ?sl] ! i)}"
      using fr v by (auto simp: nth_list_update)
    show "{} \<subseteq> {i. i < length ?h1 \<and> s_used (?h1[v := ?sl] ! i)}" by simp
    show "{} - {v} = {v} - {v}" by simp
    show "s_used ?sl \<Longrightarrow> v \<notin> {} \<Longrightarrow> s_next ?sl = Some v \<and> s_prev ?sl = Some v" by simp
  qed
  then show ?thesis by (simp add: free_heap_def)
qed

lemma scan_all_used_step:
  assumes hp: "prof_slot_heap s = Some h" and allu: "\<forall>i<length h. s_used (h ! i)"
    and n: "n \<le> length h"
  shows "i \<le> n \<Longrightarrow> first_min h i m \<Longrightarrow>
         \<exists>r. prof_evict_min_scan s n i (Some m) = Some (Some r) \<and> first_min h n r"
proof (induction "n - i" arbitrary: i m)
  case 0
  then have "i = n" by simp
  with 0 show ?case by (subst prof_evict_min_scan.simps) simp
next
  case (Suc k)
  then have lt: "i < n" by simp
  with n have il: "i < length h" by simp
  from Suc.prems(2) have mi: "m < i" by (simp add: first_min_def)
  with il have ml: "m < length h" by simp
  let ?m' = "if s_count (h ! i) < s_count (h ! m) then i else m"
  have fm: "first_min h (i + 1) ?m'"
  proof (cases "s_count (h ! i) < s_count (h ! m)")
    case True
    have "\<forall>j<i + 1. s_count (h ! i) \<le> s_count (h ! j)"
    proof (intro allI impI)
      fix j assume "j < i + 1"
      then consider "j < i" | "j = i" by linarith
      then show "s_count (h ! i) \<le> s_count (h ! j)"
      proof cases
        case 1
        with Suc.prems(2) have "s_count (h ! m) \<le> s_count (h ! j)" by (simp add: first_min_def)
        with True show ?thesis by simp
      next
        case 2
        then show ?thesis by simp
      qed
    qed
    moreover have "\<forall>j<i. s_count (h ! i) < s_count (h ! j)"
    proof (intro allI impI)
      fix j assume "j < i"
      with Suc.prems(2) have "s_count (h ! m) \<le> s_count (h ! j)" by (simp add: first_min_def)
      with True show "s_count (h ! i) < s_count (h ! j)" by simp
    qed
    ultimately show ?thesis using True by (simp add: first_min_def)
  next
    case False
    have "\<forall>j<i + 1. s_count (h ! m) \<le> s_count (h ! j)"
    proof (intro allI impI)
      fix j assume "j < i + 1"
      then consider "j < i" | "j = i" by linarith
      then show "s_count (h ! m) \<le> s_count (h ! j)"
      proof cases
        case 1
        with Suc.prems(2) show ?thesis by (simp add: first_min_def)
      next
        case 2
        with False show ?thesis by simp
      qed
    qed
    with Suc.prems(2) mi False show ?thesis by (simp add: first_min_def)
  qed
  have "k = n - (i + 1)" using Suc.hyps(2) by simp
  from Suc.hyps(1)[OF this _ fm] lt
  obtain r where r: "prof_evict_min_scan s n (i + 1) (Some ?m') = Some (Some r)"
    "first_min h n r" by auto
  have "prof_evict_min_scan s n i (Some m) = prof_evict_min_scan s n (i + 1) (Some ?m')"
    using lt il ml hp allu
    by (subst prof_evict_min_scan.simps) (simp add: get_slot_def)
  with r show ?case by simp
qed

lemma scan_all_used:
  assumes hp: "prof_slot_heap s = Some h" and allu: "\<forall>i<length h. s_used (h ! i)"
    and n: "n \<le> length h" and n0: "0 < n"
  shows "\<exists>r. prof_evict_min_scan s n 0 None = Some (Some r) \<and> first_min h n r"
proof -
  have "first_min h 1 0" by (simp add: first_min_def)
  from scan_all_used_step[OF hp allu n _ this] n0
  obtain r where r: "prof_evict_min_scan s n 1 (Some 0) = Some (Some r)" "first_min h n r"
    by auto
  have "prof_evict_min_scan s n 0 None = prof_evict_min_scan s n 1 (Some 0)"
    using n0 by (subst prof_evict_min_scan.simps) simp
  with r show ?thesis by simp
qed

lemma first_min_unique: "first_min h k m \<Longrightarrow> first_min h k m' \<Longrightarrow> m = m'"
proof (rule ccontr)
  assume a: "first_min h k m" and b: "first_min h k m'" and ne: "m \<noteq> m'"
  then consider "m < m'" | "m' < m" by linarith
  then show False
  proof cases
    case 1
    with b have "s_count (h ! m') < s_count (h ! m)" by (simp add: first_min_def)
    moreover from a b have "s_count (h ! m) \<le> s_count (h ! m')" by (simp add: first_min_def)
    ultimately show False by simp
  next
    case 2
    with a have "s_count (h ! m) < s_count (h ! m')" by (simp add: first_min_def)
    moreover from a b have "s_count (h ! m') \<le> s_count (h ! m)" by (simp add: first_min_def)
    ultimately show False by simp
  qed
qed

lemma sum_change_one:
  fixes f g :: "nat \<Rightarrow> 'a::ab_group_add"
  assumes m: "m < n" and eq: "\<forall>i<n. i \<noteq> m \<longrightarrow> g i = f i"
  shows "(\<Sum>i<n. g i) = (\<Sum>i<n. f i) - f m + g m"
proof -
  have fin: "finite {..<n}" and mem: "m \<in> {..<n}" using m by simp_all
  have "sum g ({..<n} - {m}) = sum f ({..<n} - {m})"
    by (rule sum.cong) (use eq in auto)
  then show ?thesis
    by (simp add: sum.remove[OF fin mem, of g] sum.remove[OF fin mem, of f])
qed

lemma struct_ok_free_empty:
  "struct_ok rt s h F B X \<Longrightarrow> (prof_free_list s = None) = (F = [])"
  by (cases F) (auto simp: struct_ok_def)

lemma struct_ok_all_used:
  "struct_ok rt s h [] B X \<Longrightarrow> \<forall>i<length h. s_used (h ! i)"
  by (auto simp: struct_ok_def)

lemma unlink_table_others [simp]:
  "unlink_table rt (s\<lparr>prof_others_count := c\<rparr>) h v = unlink_table rt s h v"
  by (simp add: unlink_table_def split: option.split)

lemma prof_evict_slot_eq:
  assumes ok: "struct_ok rt s h F B {}" and v: "v < length h" and u: "s_used (h ! v)"
  shows "prof_evict_slot rt v s =
         Some (s\<lparr>prof_others_count := prof_others_count s + s_count (h ! v),
                 prof_hash_table := unlink_table rt s h v,
                 prof_slot_heap := Some (free_heap h v (prof_free_list s)),
                 prof_free_list := Some v\<rparr>)"
proof -
  let ?s1 = "s\<lparr>prof_others_count := prof_others_count s + s_count (h ! v)\<rparr>"
  have ok1: "struct_ok rt ?s1 h F B {}"
    using ok by (simp add: struct_ok_fields[of ?s1 s])
  have hp: "prof_slot_heap s = Some h" using ok by (simp add: struct_ok_def)
  show ?thesis
    using v hp by (simp add: prof_evict_slot_def get_slot_def prof_free_slot_eq[OF ok1 v u])
qed

lemma prof_evict_min_slot_eq:
  assumes ok: "struct_ok rt s h [] B {}" and n0: "0 < length h"
  shows "\<exists>m. first_min h (length h) m \<and>
           prof_evict_min_slot rt s =
           Some (s\<lparr>prof_others_count := prof_others_count s + s_count (h ! m),
                   prof_hash_table := unlink_table rt s h m,
                   prof_slot_heap := Some (free_heap h m None),
                   prof_free_list := Some m\<rparr>)"
proof -
  note b = struct_ok_basic[OF ok]
  note au = struct_ok_all_used[OF ok]
  from scan_all_used[of s h "length h"] b au n0
  obtain m where m: "prof_evict_min_scan s (length h) 0 None = Some (Some m)"
    "first_min h (length h) m" by auto
  then have ml: "m < length h" by (simp add: first_min_def)
  with au have mu: "s_used (h ! m)" by simp
  have fl: "prof_free_list s = None" using struct_ok_free_empty[OF ok] by simp
  have "prof_evict_min_slot rt s =
           Some (s\<lparr>prof_others_count := prof_others_count s + s_count (h ! m),
                   prof_hash_table := unlink_table rt s h m,
                   prof_slot_heap := Some (free_heap h m None),
                   prof_free_list := Some m\<rparr>)"
    using m(1) b fl by (simp add: prof_evict_min_slot_def prof_evict_slot_eq[OF ok ml mu])
  with m(2) show ?thesis by blast
qed

lemma prof_allocate_slot_nonempty:
  assumes ok: "struct_ok rt s h (x # F') B {}"
  shows "prof_allocate_slot rt s =
         Some (x, s\<lparr>prof_slot_heap := Some (h[x := (h ! x)\<lparr>s_used := True\<rparr>]),
                     prof_free_list := s_next (h ! x)\<rparr>)"
proof -
  note b = struct_ok_basic[OF ok]
  from struct_ok_free[OF ok] have fl: "prof_free_list s = Some x" and xl: "x < length h"
    by simp_all
  show ?thesis
    using b fl xl by (simp add: prof_allocate_slot_def upd_slot_def get_slot_def)
qed

lemma prof_allocate_slot_empty:
  assumes ok: "struct_ok rt s h [] B {}" and n0: "0 < length h"
  shows "\<exists>m. first_min h (length h) m \<and>
           prof_allocate_slot rt s =
           Some (m, s\<lparr>prof_others_count := prof_others_count s + s_count (h ! m),
                   prof_hash_table := unlink_table rt s h m,
                   prof_slot_heap := Some ((unlink_heap h m)
                      [m := (unlink_heap h m ! m)\<lparr>s_next := None, s_used := True\<rparr>]),
                   prof_free_list := None\<rparr>)"
proof -
  from prof_evict_min_slot_eq[OF ok n0] obtain m where m: "first_min h (length h) m"
    and ev: "prof_evict_min_slot rt s =
           Some (s\<lparr>prof_others_count := prof_others_count s + s_count (h ! m),
                   prof_hash_table := unlink_table rt s h m,
                   prof_slot_heap := Some (free_heap h m None),
                   prof_free_list := Some m\<rparr>)" by blast
  from m have ml: "m < length h" by (simp add: first_min_def)
  have fl: "prof_free_list s = None" using struct_ok_free_empty[OF ok] by simp
  have "prof_allocate_slot rt s =
           Some (m, s\<lparr>prof_others_count := prof_others_count s + s_count (h ! m),
                   prof_hash_table := unlink_table rt s h m,
                   prof_slot_heap := Some ((unlink_heap h m)
                      [m := (unlink_heap h m ! m)\<lparr>s_next := None, s_used := True\<rparr>]),
                   prof_free_list := None\<rparr>)"
    using fl ml
    by (simp add: prof_allocate_slot_def ev eassert_def upd_slot_def get_slot_def free_heap_def)
  with m show ?thesis by blast
qed

lemma group_shift:
  fixes S :: "'a::ab_group_add"
  assumes "S' = S - w + w'" and "t = S + c" and "t' - c' - w' = t - c - w"
  shows "t' = S' + c'"
proof -
  have "t' - c' - w' = S - w" using assms(2,3) by simp
  then have "t' = S - w + w' + c'" by (simp add: algebra_simps)
  with assms(1) show ?thesis by simp
qed

lemma count_ok_change:
  assumes c: "count_ok s h X" and x: "x < length h" and l: "length h' = length h"
    and w: "\<forall>i<length h. i \<noteq> x \<longrightarrow> slot_weight h' X' i = slot_weight h X i"
    and e: "prof_total_count s' - prof_others_count s' - slot_weight h' X' x =
            prof_total_count s - prof_others_count s - slot_weight h X x"
  shows "count_ok s' h' X'"
proof -
  have "(\<Sum>i<length h. slot_weight h' X' i) =
        (\<Sum>i<length h. slot_weight h X i) - slot_weight h X x + slot_weight h' X' x"
    by (rule sum_change_one[OF x w])
  moreover have "prof_total_count s = (\<Sum>i<length h. slot_weight h X i) + prof_others_count s"
    using c by (simp add: count_ok_def)
  ultimately have "prof_total_count s' =
      (\<Sum>i<length h. slot_weight h' X' i) + prof_others_count s'"
    using e by (rule group_shift)
  then show ?thesis by (simp add: count_ok_def l)
qed

lemma make_slot_record:
  "length (s_backtrace sl) = D \<Longrightarrow>
   sl\<lparr>s_used := True,
      s_backtrace := map ((!) bt) [0..<D] @ drop D (s_backtrace sl),
      s_prev := None, s_next := None, s_count := 0\<rparr> = fresh_slot D bt"
  by (cases sl) (simp add: fresh_slot_def)

lemma prof_make_slot_nonempty:
  assumes ok: "struct_ok rt s h (x # F') B {}"
  shows "prof_make_slot rt bt s =
         Some (x, s\<lparr>prof_free_list := s_next (h ! x),
                     prof_slot_heap := Some (h[x := fresh_slot (prof_max_stack_depth s) bt])\<rparr>)"
proof -
  note b = struct_ok_basic[OF ok]
  from struct_ok_free[OF ok] have xl: "x < length h" by simp
  with b have "length (s_backtrace (h ! x)) = prof_max_stack_depth s" by simp
  from make_slot_record[OF this] xl show ?thesis
    by (simp add: prof_make_slot_def prof_allocate_slot_nonempty[OF ok] upd_slot_def)
qed

lemma prof_make_slot_empty:
  assumes ok: "struct_ok rt s h [] B {}" and n0: "0 < length h"
  shows "\<exists>m. first_min h (length h) m \<and>
           prof_make_slot rt bt s =
           Some (m, s\<lparr>prof_others_count := prof_others_count s + s_count (h ! m),
                   prof_hash_table := unlink_table rt s h m,
                   prof_free_list := None,
                   prof_slot_heap := Some ((unlink_heap h m)
                      [m := fresh_slot (prof_max_stack_depth s) bt])\<rparr>)"
proof -
  from prof_allocate_slot_empty[OF ok n0] obtain m where m: "first_min h (length h) m"
    and al: "prof_allocate_slot rt s =
           Some (m, s\<lparr>prof_others_count := prof_others_count s + s_count (h ! m),
                   prof_hash_table := unlink_table rt s h m,
                   prof_slot_heap := Some ((unlink_heap h m)
                      [m := (unlink_heap h m ! m)\<lparr>s_next := None, s_used := True\<rparr>]),
                   prof_free_list := None\<rparr>)" by blast
  note b = struct_ok_basic[OF ok]
  from m have ml: "m < length h" by (simp add: first_min_def)
  with b have "length (s_backtrace (unlink_heap h m ! m)) = prof_max_stack_depth s"
    by (simp add: unlink_heap_data)
  from make_slot_record[OF this] ml
  have "prof_make_slot rt bt s =
           Some (m, s\<lparr>prof_others_count := prof_others_count s + s_count (h ! m),
                   prof_hash_table := unlink_table rt s h m,
                   prof_free_list := None,
                   prof_slot_heap := Some ((unlink_heap h m)
                      [m := fresh_slot (prof_max_stack_depth s) bt])\<rparr>)"
    by (simp add: prof_make_slot_def al upd_slot_def)
  with m show ?thesis by blast
qed

lemma length_fresh_slot [simp]: "length (s_backtrace (fresh_slot D bt)) = D"
  by (simp add: fresh_slot_def)

lemma fresh_slot_sel [simp]:
  "s_used (fresh_slot D bt)" "s_count (fresh_slot D bt) = 0"
  "s_next (fresh_slot D bt) = None" "s_prev (fresh_slot D bt) = None"
  "s_backtrace (fresh_slot D bt) = map ((!) bt) [0..<D]"
  by (simp_all add: fresh_slot_def)

lemma prof_make_slot_ok:
  assumes ok: "struct_ok rt s h F B {}" and cnt: "count_ok s h {}" and n0: "0 < length h"
  shows "\<exists>x s' h'. prof_make_slot rt bt s = Some (x, s') \<and> x < length h \<and>
           h' ! x = fresh_slot (prof_max_stack_depth s) bt \<and> same_data h' h x \<and>
           same_ctl s s' \<and>
           struct_ok rt s' h' (tl F) (\<lambda>b. remove1 x (B b)) {x} \<and> count_ok s' h' {x} \<and>
           (case F of
              [] \<Rightarrow> first_min h (length h) x \<and>
                    prof_others_count s' = prof_others_count s + s_count (h ! x)
            | y # F' \<Rightarrow> x = y \<and> prof_others_count s' = prof_others_count s \<and>
                    prof_hash_table s' = prof_hash_table s)"
proof (cases F)
  case (Cons x F')
  let ?D = "prof_max_stack_depth s"
  let ?h' = "h[x := fresh_slot ?D bt]"
  let ?s' = "s\<lparr>prof_free_list := s_next (h ! x), prof_slot_heap := Some ?h'\<rparr>"
  from ok Cons have ok': "struct_ok rt s h (x # F') B {}" by simp
  note fr = struct_ok_free[OF ok']
  from fr have xl: "x < length h" and xu: "\<not> s_used (h ! x)" and xF: "x \<notin> set F'"
    and pF: "path h (s_next (h ! x)) F' None" and dF: "distinct F'" by auto
  have mk: "prof_make_slot rt bt s = Some (x, ?s')"
    by (rule prof_make_slot_nonempty[OF ok'])
  have "struct_ok rt (s\<lparr>prof_slot_heap := Some ?h', prof_free_list := s_next (h ! x)\<rparr>)
          ?h' F' B {x}"
  proof (rule struct_ok_change_slot[OF ok' xl])
    show "\<forall>b<PROF_HASH_TABLE_SIZE. x \<notin> set (B b)"
      using struct_ok_member[OF ok'] xu by blast
    show "length (s_backtrace (fresh_slot ?D bt)) = ?D" by simp
    show "path ?h' (s_next (h ! x)) F' None" using pF xF by (simp add: path_upd_notin)
    show "distinct F'" by fact
    show "set F' = {i. i < length h \<and> \<not> s_used (?h' ! i)}"
    proof -
      have "set (x # F') = {i. i < length h \<and> \<not> s_used (h ! i)}" using fr by simp
      moreover have "{i. i < length h \<and> \<not> s_used (?h' ! i)} =
                     {i. i < length h \<and> \<not> s_used (h ! i)} - {x}"
        using xl by (auto simp: nth_list_update)
      ultimately show ?thesis using xF by auto
    qed
    show "{x} \<subseteq> {i. i < length h \<and> s_used (?h' ! i)}" using xl by simp
    show "{x} - {x} = {} - {x}" by simp
    show "s_used (fresh_slot ?D bt) \<Longrightarrow> x \<notin> {x} \<Longrightarrow>
          s_next (fresh_slot ?D bt) = Some x \<and> s_prev (fresh_slot ?D bt) = Some x" by simp
  qed
  then have st: "struct_ok rt ?s' ?h' (tl F) (\<lambda>b. remove1 x (B b)) {x}"
  proof -
    have "\<And>b. b < PROF_HASH_TABLE_SIZE \<Longrightarrow> remove1 x (B b) = B b"
      using struct_ok_member[OF ok'] xu by (metis remove1_idem)
    then have "struct_ok rt ?s' ?h' F' (\<lambda>b. remove1 x (B b)) {x} = struct_ok rt ?s' ?h' F' B {x}"
      by (simp add: struct_ok_def)
    moreover assume "struct_ok rt (s\<lparr>prof_slot_heap := Some ?h', prof_free_list := s_next (h ! x)\<rparr>)
          ?h' F' B {x}"
    then have "struct_ok rt ?s' ?h' F' B {x}"
      by (simp add: struct_ok_fields[of ?s' "s\<lparr>prof_slot_heap := Some ?h', prof_free_list := s_next (h ! x)\<rparr>"])
    ultimately show ?thesis using Cons by simp
  qed
  have co: "count_ok ?s' ?h' {x}"
  proof (rule count_ok_change[OF cnt xl])
    show "length ?h' = length h" by simp
    show "\<forall>i<length h. i \<noteq> x \<longrightarrow> slot_weight ?h' {x} i = slot_weight h {} i"
      by (simp add: slot_weight_def)
    show "prof_total_count ?s' - prof_others_count ?s' - slot_weight ?h' {x} x =
          prof_total_count s - prof_others_count s - slot_weight h {} x"
      using xu by (simp add: slot_weight_def)
  qed
  have sd: "same_data ?h' h x" by (simp add: same_data_def)
  have sc: "same_ctl s ?s'" by (simp add: same_ctl_def)
  have hx: "?h' ! x = fresh_slot ?D bt" using xl by simp
  show ?thesis
    apply (rule exI[of _ x])
    apply (rule exI[of _ ?s'])
    apply (rule exI[of _ ?h'])
    using mk xl hx sd sc st co Cons by simp
next
  case Nil
  let ?D = "prof_max_stack_depth s"
  from ok Nil have ok': "struct_ok rt s h [] B {}" by simp
  from prof_make_slot_empty[OF ok' n0, of bt] obtain m where m: "first_min h (length h) m"
    and mk: "prof_make_slot rt bt s =
           Some (m, s\<lparr>prof_others_count := prof_others_count s + s_count (h ! m),
                   prof_hash_table := unlink_table rt s h m,
                   prof_free_list := None,
                   prof_slot_heap := Some ((unlink_heap h m)[m := fresh_slot ?D bt])\<rparr>)"
    by blast
  let ?h1 = "unlink_heap h m"
  let ?h' = "?h1[m := fresh_slot ?D bt]"
  let ?s1 = "s\<lparr>prof_hash_table := unlink_table rt s h m, prof_slot_heap := Some ?h1\<rparr>"
  let ?s' = "s\<lparr>prof_others_count := prof_others_count s + s_count (h ! m),
                   prof_hash_table := unlink_table rt s h m,
                   prof_free_list := None,
                   prof_slot_heap := Some ?h'\<rparr>"
  from m have ml: "m < length h" by (simp add: first_min_def)
  with struct_ok_all_used[OF ok'] have mu: "s_used (h ! m)" by simp
  have fl: "prof_free_list s = None" using struct_ok_free_empty[OF ok'] by simp
  have ok1: "struct_ok rt ?s1 ?h1 [] (\<lambda>b. remove1 m (B b)) {m}"
    by (rule unlink_struct_ok[OF ok' ml mu])
  have "struct_ok rt (?s1\<lparr>prof_slot_heap := Some ?h', prof_free_list := None\<rparr>)
          ?h' [] (\<lambda>b. remove1 m (B b)) {m}"
  proof (rule struct_ok_change_slot[OF ok1])
    show "m < length ?h1" using ml by simp
    show "\<forall>b<PROF_HASH_TABLE_SIZE. m \<notin> set (remove1 m (B b))"
      using struct_ok_exempt_notin[OF ok1, of m] by simp
    show "length (s_backtrace (fresh_slot ?D bt)) = prof_max_stack_depth ?s1" by simp
    show "path ?h' None [] None" by simp
    show "distinct []" by simp
    show "set [] = {i. i < length ?h1 \<and> \<not> s_used (?h' ! i)}"
    proof -
      have "\<forall>i<length ?h1. s_used (?h1 ! i)" by (rule struct_ok_all_used[OF ok1])
      then have "\<forall>i<length ?h1. s_used (?h' ! i)" using ml by (simp add: nth_list_update)
      then show ?thesis by auto
    qed
    show "{m} \<subseteq> {i. i < length ?h1 \<and> s_used (?h' ! i)}" using ml by simp
    show "{m} - {m} = {m} - {m}" by simp
    show "s_used (fresh_slot ?D bt) \<Longrightarrow> m \<notin> {m} \<Longrightarrow>
          s_next (fresh_slot ?D bt) = Some m \<and> s_prev (fresh_slot ?D bt) = Some m" by simp
  qed
  then have st: "struct_ok rt ?s' ?h' (tl F) (\<lambda>b. remove1 m (B b)) {m}"
    using Nil
    by (simp add: struct_ok_fields[of ?s' "?s1\<lparr>prof_slot_heap := Some ?h', prof_free_list := None\<rparr>"])
  have co: "count_ok ?s' ?h' {m}"
  proof (rule count_ok_change[OF cnt ml])
    show "length ?h' = length h" by simp
    show "\<forall>i<length h. i \<noteq> m \<longrightarrow> slot_weight ?h' {m} i = slot_weight h {} i"
      by (simp add: slot_weight_def unlink_heap_data)
    show "prof_total_count ?s' - prof_others_count ?s' - slot_weight ?h' {m} m =
          prof_total_count s - prof_others_count s - slot_weight h {} m"
      using mu by (simp add: slot_weight_def algebra_simps)
  qed
  have sd: "same_data ?h' h m" by (simp add: same_data_def unlink_heap_data)
  have sc: "same_ctl s ?s'" by (simp add: same_ctl_def)
  have hx: "?h' ! m = fresh_slot ?D bt" using ml by simp
  show ?thesis
    apply (rule exI[of _ m])
    apply (rule exI[of _ ?s'])
    apply (rule exI[of _ ?h'])
    using mk ml hx sd sc st co Nil m by simp
qed

lemma prof_ensure_slot_loop_path:
  assumes hp: "prof_slot_heap s = Some h"
  shows "path h p L None \<Longrightarrow>
         prof_ensure_slot_loop s bt p prev =
         Some (chain_search (prof_max_stack_depth s) h bt L prev)"
proof (induction L arbitrary: p prev)
  case Nil
  then show ?case by (subst prof_ensure_slot_loop.simps) simp
next
  case (Cons x xs)
  then have p: "p = Some x" and xl: "x < length h" and pa: "path h (s_next (h ! x)) xs None"
    by simp_all
  show ?case
    using p xl hp Cons.IH[OF pa]
    by (subst prof_ensure_slot_loop.simps) (simp add: get_slot_def)
qed

lemma chain_search_none:
  "\<forall>x\<in>set L. \<not> prof_backtrace_equal D bt (s_backtrace (h ! x)) \<Longrightarrow>
   chain_search D h bt L prev = (None, lastopt prev L)"
  by (induction L arbitrary: prev) (auto simp: lastopt_def)

lemma chain_search_some:
  "fst (chain_search D h bt L prev) = Some x \<Longrightarrow>
   x \<in> set L \<and> prof_backtrace_equal D bt (s_backtrace (h ! x))"
  by (induction L arbitrary: prev) (auto split: if_splits)

lemma chain_search_cases:
  "(\<exists>x pr. chain_search D h bt L prev = (Some x, pr) \<and> x \<in> set L \<and>
      prof_backtrace_equal D bt (s_backtrace (h ! x))) \<or>
   (chain_search D h bt L prev = (None, lastopt prev L) \<and>
      (\<forall>x\<in>set L. \<not> prof_backtrace_equal D bt (s_backtrace (h ! x))))"
proof (cases "\<forall>x\<in>set L. \<not> prof_backtrace_equal D bt (s_backtrace (h ! x))")
  case True
  then show ?thesis using chain_search_none[OF True] by simp
next
  case False
  have "fst (chain_search D h bt L prev) \<noteq> None"
    using False by (induction L arbitrary: prev) auto
  then obtain x pr where e: "chain_search D h bt L prev = (Some x, pr)"
    by (cases "chain_search D h bt L prev") auto
  with chain_search_some[of D h bt L prev x] show ?thesis by simp
qed

lemma prof_backtrace_equal_from_iff:
  "prof_backtrace_equal_from D a b i = (\<forall>j. i \<le> j \<and> j < D \<longrightarrow> a ! j = b ! j)"
proof (induction D a b i rule: prof_backtrace_equal_from.induct)
  case (1 D a b i)
  show ?case
  proof (cases "i < D")
    case True
    show ?thesis
    proof (cases "a ! i = b ! i")
      case e: True
      have "(\<forall>j. i \<le> j \<and> j < D \<longrightarrow> a ! j = b ! j) =
            (\<forall>j. i + 1 \<le> j \<and> j < D \<longrightarrow> a ! j = b ! j)"
        using e by (metis Suc_eq_plus1 Suc_leI le_neq_implies_less Suc_leD)
      with 1 True e show ?thesis
        by (subst prof_backtrace_equal_from.simps) (simp add: EQ_def)
    next
      case False
      with True show ?thesis
        by (subst prof_backtrace_equal_from.simps) (auto simp: EQ_def)
    qed
  next
    case False
    then show ?thesis by (subst prof_backtrace_equal_from.simps) auto
  qed
qed

lemma prof_backtrace_equal_iff:
  "prof_backtrace_equal D a b = (\<forall>j<D. a ! j = b ! j)"
  by (simp add: prof_backtrace_equal_def prof_backtrace_equal_from_iff)

lemma prof_backtrace_equal_lists:
  "length a = D \<Longrightarrow> length b = D \<Longrightarrow> prof_backtrace_equal D a b = (a = b)"
  by (auto simp: prof_backtrace_equal_iff list_eq_iff_nth_eq)

lemma prof_backtrace_hash_cong:
  "(\<forall>j<D. a ! j = b ! j) \<Longrightarrow> prof_backtrace_hash rt D a = prof_backtrace_hash rt D b"
  unfolding prof_backtrace_hash_def
  by (rule foldl_cong) auto

lemma prof_backtrace_index_copy:
  "prof_backtrace_index rt D (map ((!) bt) [0..<D]) = prof_backtrace_index rt D bt"
  unfolding prof_backtrace_index_def
  by (simp add: prof_backtrace_hash_cong[of D "map ((!) bt) [0..<D]" bt])

lemma struct_ok_link_self:
  assumes ok: "struct_ok rt s h F B {x}"
  shows "struct_ok rt
           (s\<lparr>prof_slot_heap := Some (h[x := (h ! x)\<lparr>s_prev := Some x, s_next := Some x\<rparr>])\<rparr>)
           (h[x := (h ! x)\<lparr>s_prev := Some x, s_next := Some x\<rparr>]) F B {}"
proof -
  let ?sl = "(h ! x)\<lparr>s_prev := Some x, s_next := Some x\<rparr>"
  note ex = struct_ok_exempt_notin[OF ok, of x]
  note fr = struct_ok_free[OF ok]
  from ex have xl: "x < length h" and xu: "s_used (h ! x)" and xF: "x \<notin> set F" by simp_all
  have "struct_ok rt (s\<lparr>prof_slot_heap := Some (h[x := ?sl]), prof_free_list := prof_free_list s\<rparr>)
          (h[x := ?sl]) F B {}"
  proof (rule struct_ok_change_slot[OF ok xl])
    show "\<forall>b<PROF_HASH_TABLE_SIZE. x \<notin> set (B b)" using ex by simp
    show "length (s_backtrace ?sl) = prof_max_stack_depth s"
      using struct_ok_basic[OF ok] xl by simp
    show "path (h[x := ?sl]) (prof_free_list s) F None" using fr xF by (simp add: path_upd_notin)
    show "distinct F" using fr by simp
    show "set F = {i. i < length h \<and> \<not> s_used (h[x := ?sl] ! i)}"
    proof -
      have "{i. i < length h \<and> \<not> s_used (h[x := ?sl] ! i)} =
            {i. i < length h \<and> \<not> s_used (h ! i)}"
        using xl xu by (auto simp: nth_list_update)
      with fr show ?thesis by simp
    qed
    show "{} \<subseteq> {i. i < length h \<and> s_used (h[x := ?sl] ! i)}" by simp
    show "{} - {x} = {x} - {x}" by simp
    show "s_used ?sl \<Longrightarrow> x \<notin> {} \<Longrightarrow> s_next ?sl = Some x \<and> s_prev ?sl = Some x" by simp
  qed
  then show ?thesis by simp
qed

lemma struct_ok_link_head:
  assumes ok: "struct_ok rt s h F B {x}" and b: "b < PROF_HASH_TABLE_SIZE" and e: "B b = []"
    and nx: "s_next (h ! x) = None" and px: "s_prev (h ! x) = None"
    and ix: "prof_backtrace_index rt (prof_max_stack_depth s) (s_backtrace (h ! x)) = b"
  shows "struct_ok rt (s\<lparr>prof_hash_table := (prof_hash_table s)[b := Some x]\<rparr>) h F
           (B(b := [x])) {}"
proof -
  let ?T = PROF_HASH_TABLE_SIZE
  let ?ht' = "(prof_hash_table s)[b := Some x]"
  note ex = struct_ok_exempt_notin[OF ok, of x]
  note ba = struct_ok_basic[OF ok]
  from ex have xl: "x < length h" and xu: "s_used (h ! x)" by simp_all
  have c_bucket: "path h (?ht' ! b') ((B(b := [x])) b') None \<and>
        prevs h None ((B(b := [x])) b') \<and> distinct ((B(b := [x])) b') \<and>
        (\<forall>y\<in>set ((B(b := [x])) b'). y < length h \<and> s_used (h ! y) \<and> y \<notin> {} \<and>
           prof_backtrace_index rt (prof_max_stack_depth s) (s_backtrace (h ! y)) = b')"
    if b': "b' < ?T" for b'
  proof (cases "b' = b")
    case True
    with b ba xl xu nx px ix show ?thesis by simp
  next
    case False
    with struct_ok_bucket[OF ok b'] struct_ok_member[OF ok b'] show ?thesis by simp
  qed
  have c_orph: "s_next (h ! i) = Some i \<and> s_prev (h ! i) = Some i"
    if i: "i < length h" and iu: "s_used (h ! i)"
      and nl: "\<forall>b'<?T. i \<notin> set ((B(b := [x])) b')" for i
  proof -
    from nl b have ix: "i \<noteq> x" by auto
    have "\<forall>b'<?T. i \<notin> set (B b')"
    proof (intro allI impI)
      fix b' assume b': "b' < ?T"
      with nl have "i \<notin> set ((B(b := [x])) b')" by simp
      then show "i \<notin> set (B b')" using e by (cases "b' = b") simp_all
    qed
    from struct_ok_orphan[OF ok i iu _ this] ix show ?thesis by simp
  qed
  show ?thesis
    unfolding struct_ok_def
    using ba struct_ok_free[OF ok] c_bucket c_orph
    by simp
qed

lemma struct_ok_link_tail:
  assumes ok: "struct_ok rt s h F B {x}" and b: "b < PROF_HASH_TABLE_SIZE"
    and e: "B b = L @ [p]"
    and nx: "s_next (h ! x) = None"
    and ix: "prof_backtrace_index rt (prof_max_stack_depth s) (s_backtrace (h ! x)) = b"
  shows "struct_ok rt
           (s\<lparr>prof_slot_heap := Some (h[x := (h ! x)\<lparr>s_prev := Some p\<rparr>,
                                         p := (h ! p)\<lparr>s_next := Some x\<rparr>])\<rparr>)
           (h[x := (h ! x)\<lparr>s_prev := Some p\<rparr>, p := (h ! p)\<lparr>s_next := Some x\<rparr>]) F
           (B(b := L @ [p, x])) {}"
proof -
  let ?T = PROF_HASH_TABLE_SIZE
  let ?h' = "h[x := (h ! x)\<lparr>s_prev := Some p\<rparr>, p := (h ! p)\<lparr>s_next := Some x\<rparr>]"
  let ?B' = "B(b := L @ [p, x])"
  note ex = struct_ok_exempt_notin[OF ok, of x]
  note ba = struct_ok_basic[OF ok]
  note fr = struct_ok_free[OF ok]
  note bk = struct_ok_bucket[OF ok b]
  from ex have xl: "x < length h" and xu: "s_used (h ! x)" and xF: "x \<notin> set F"
    and xB: "\<And>b'. b' < ?T \<Longrightarrow> x \<notin> set (B b')" by simp_all
  have pb: "p \<in> set (B b)" using e by simp
  from struct_ok_member[OF ok b pb] have pl: "p < length h" and pu: "s_used (h ! p)"
    and ip: "prof_backtrace_index rt (prof_max_stack_depth s) (s_backtrace (h ! p)) = b"
    by simp_all
  have px: "p \<noteq> x" using xB[OF b] pb by auto
  have data: "\<And>i. i < length h \<Longrightarrow> s_used (?h' ! i) = s_used (h ! i) \<and>
                 s_backtrace (?h' ! i) = s_backtrace (h ! i)"
    using pl xl by (simp add: nth_list_update)
  have nxt: "\<And>i. i < length h \<Longrightarrow> i \<noteq> p \<Longrightarrow> s_next (?h' ! i) = s_next (h ! i)"
    using pl xl by (simp add: nth_list_update)
  have prv: "\<And>i. i < length h \<Longrightarrow> i \<noteq> x \<Longrightarrow> s_prev (?h' ! i) = s_prev (h ! i)"
    using pl xl px by (simp add: nth_list_update)
  have pF: "p \<notin> set F" using fr pu by auto
  have c_free: "path ?h' (prof_free_list s) F None"
  proof (rule path_cong_next[of h])
    show "path h (prof_free_list s) F None" using fr by simp
    show "length ?h' = length h" by simp
    show "\<forall>y\<in>set F. s_next (?h' ! y) = s_next (h ! y)"
    proof
      fix y assume y: "y \<in> set F"
      with pF have "y \<noteq> p" by auto
      moreover from y fr have "y < length h" by auto
      ultimately show "s_next (?h' ! y) = s_next (h ! y)" using nxt[of y] by blast
    qed
  qed
  have c_set: "set F = {i. i < length ?h' \<and> \<not> s_used (?h' ! i)}"
  proof -
    have "{i. i < length ?h' \<and> \<not> s_used (?h' ! i)} = {i. i < length h \<and> \<not> s_used (h ! i)}"
      using data by auto
    with fr show ?thesis by simp
  qed
  have c_bt: "\<forall>i<length ?h'. length (s_backtrace (?h' ! i)) = prof_max_stack_depth s"
    using ba data by simp
  have c_bucket: "path ?h' (prof_hash_table s ! b') (?B' b') None \<and>
        prevs ?h' None (?B' b') \<and> distinct (?B' b') \<and>
        (\<forall>y\<in>set (?B' b'). y < length ?h' \<and> s_used (?h' ! y) \<and> y \<notin> {} \<and>
           prof_backtrace_index rt (prof_max_stack_depth s) (s_backtrace (?h' ! y)) = b')"
    if b': "b' < ?T" for b'
  proof (cases "b' = b")
    case True
    from bk e have pa: "path h (prof_hash_table s ! b) L (Some p)"
      and pn: "s_next (h ! p) = None"
      and pr: "prevs h None (L @ [p])" and di: "distinct (L @ [p])"
      by (auto simp: path_append)
    have inL: "\<And>y. y \<in> set L \<Longrightarrow> y < length h \<and> y \<noteq> p \<and> y \<noteq> x"
      using di path_in_range[OF pa] xB[OF b] e by auto
    have pa': "path ?h' (prof_hash_table s ! b) L (Some p)"
    proof (rule path_cong_next[OF pa])
      show "length ?h' = length h" by simp
      show "\<forall>y\<in>set L. s_next (?h' ! y) = s_next (h ! y)"
      proof
        fix y assume "y \<in> set L"
        from inL[OF this] nxt[of y] show "s_next (?h' ! y) = s_next (h ! y)" by blast
      qed
    qed
    have "path ?h' (Some p) [p, x] None"
      using pl xl px nx by (simp add: nth_list_update)
    with pa' have P: "path ?h' (prof_hash_table s ! b) (L @ [p, x]) None"
      by (auto simp: path_append)
    have pr': "prevs ?h' None (L @ [p])"
    proof (rule prevs_cong_prev[OF pr])
      show "\<forall>y\<in>set (L @ [p]). s_prev (?h' ! y) = s_prev (h ! y)"
      proof
        fix y assume "y \<in> set (L @ [p])"
        then have "y < length h \<and> y \<noteq> x" using inL[of y] pl px by auto
        with prv[of y] show "s_prev (?h' ! y) = s_prev (h ! y)" by blast
      qed
    qed
    have "s_prev (?h' ! x) = Some p" using xl px by (simp add: nth_list_update)
    with pr' have R: "prevs ?h' None (L @ [p, x])"
      using prevs_append[of ?h' None "L @ [p]" "[x]"] by (simp add: lastopt_def)
    have Dd: "distinct (L @ [p, x])" using di inL px by auto
    have M: "\<forall>y\<in>set (L @ [p, x]). y < length ?h' \<and> s_used (?h' ! y) \<and> y \<notin> {} \<and>
           prof_backtrace_index rt (prof_max_stack_depth s) (s_backtrace (?h' ! y)) = b"
    proof
      fix y assume "y \<in> set (L @ [p, x])"
      then consider "y \<in> set (B b)" | "y = x" using e by auto
      then show "y < length ?h' \<and> s_used (?h' ! y) \<and> y \<notin> {} \<and>
           prof_backtrace_index rt (prof_max_stack_depth s) (s_backtrace (?h' ! y)) = b"
      proof cases
        case 1
        from struct_ok_member[OF ok b 1] data[of y] show ?thesis by simp
      next
        case 2
        with xl xu ix data[of x] show ?thesis by simp
      qed
    qed
    show ?thesis unfolding True fun_upd_same using P R Dd M by blast
  next
    case False
    note bk' = struct_ok_bucket[OF ok b']
    note mem' = struct_ok_member[OF ok b']
    have ne: "\<And>y. y \<in> set (B b') \<Longrightarrow> y < length h \<and> y \<noteq> p \<and> y \<noteq> x"
    proof -
      fix y assume y: "y \<in> set (B b')"
      from mem'[OF y] ip False have "y \<noteq> p" by auto
      moreover from xB[OF b'] y have "y \<noteq> x" by auto
      ultimately show "y < length h \<and> y \<noteq> p \<and> y \<noteq> x" using mem'[OF y] by simp
    qed
    have P: "path ?h' (prof_hash_table s ! b') (B b') None"
    proof (rule path_cong_next[of h])
      show "path h (prof_hash_table s ! b') (B b') None" using bk' by simp
      show "length ?h' = length h" by simp
      show "\<forall>y\<in>set (B b'). s_next (?h' ! y) = s_next (h ! y)"
      proof
        fix y assume "y \<in> set (B b')"
        from ne[OF this] nxt[of y] show "s_next (?h' ! y) = s_next (h ! y)" by blast
      qed
    qed
    have R: "prevs ?h' None (B b')"
    proof (rule prevs_cong_prev[of h])
      show "prevs h None (B b')" using bk' by simp
      show "\<forall>y\<in>set (B b'). s_prev (?h' ! y) = s_prev (h ! y)"
      proof
        fix y assume "y \<in> set (B b')"
        from ne[OF this] prv[of y] show "s_prev (?h' ! y) = s_prev (h ! y)" by blast
      qed
    qed
    have M: "\<forall>y\<in>set (B b'). y < length ?h' \<and> s_used (?h' ! y) \<and> y \<notin> {} \<and>
           prof_backtrace_index rt (prof_max_stack_depth s) (s_backtrace (?h' ! y)) = b'"
      using mem' data by simp
    from P R M bk' False show ?thesis by simp
  qed
  have c_orph: "s_next (?h' ! i) = Some i \<and> s_prev (?h' ! i) = Some i"
    if i: "i < length ?h'" and iu: "s_used (?h' ! i)"
      and nl: "\<forall>b'<?T. i \<notin> set (?B' b')" for i
  proof -
    from nl b have ixp: "i \<noteq> x" "i \<noteq> p" by auto
    have "\<forall>b'<?T. i \<notin> set (B b')"
    proof (intro allI impI)
      fix b' assume b': "b' < ?T"
      with nl have "i \<notin> set (?B' b')" by simp
      then show "i \<notin> set (B b')" using e by (cases "b' = b") simp_all
    qed
    from struct_ok_orphan[OF ok _ _ _ this] i iu ixp data[of i]
    have "s_next (h ! i) = Some i \<and> s_prev (h ! i) = Some i" by simp
    with nxt[of i] prv[of i] i ixp show ?thesis by simp
  qed
  have c0: "prof_slot_heap_size s = length ?h'" "length (prof_hash_table s) = ?T"
    using ba by simp_all
  show ?thesis
    unfolding struct_ok_def
    using c0 c_bt c_free fr c_set c_bucket c_orph
    by simp
qed

lemma count_ok_data:
  assumes c: "count_ok s h X" and l: "length h' = length h"
    and w: "\<forall>i<length h. slot_weight h' X' i = slot_weight h X i"
    and t: "prof_total_count s' = prof_total_count s"
    and o: "prof_others_count s' = prof_others_count s"
  shows "count_ok s' h' X'"
proof -
  have "(\<Sum>i<length h. slot_weight h' X' i) = (\<Sum>i<length h. slot_weight h X i)"
    by (rule sum.cong) (use w in auto)
  with c t o l show ?thesis by (simp add: count_ok_def)
qed

lemma remove1_keeps_last:
  "L \<noteq> [] \<Longrightarrow> last L \<noteq> x \<Longrightarrow> \<exists>L'. remove1 x L = L' @ [last L]"
proof (induction L)
  case Nil
  then show ?case by simp
next
  case (Cons a L)
  show ?case
  proof (cases "L = []")
    case True
    with Cons.prems show ?thesis by simp
  next
    case False
    with Cons.prems have "last L \<noteq> x" by simp
    from Cons.IH[OF False this] obtain L' where L': "remove1 x L = L' @ [last L]" by blast
    show ?thesis
    proof (cases "a = x")
      case True
      from False obtain L0 where "L = L0 @ [last L]" by (metis append_butlast_last_id)
      with True False show ?thesis by auto
    next
      case F2: False
      with L' False show ?thesis by simp
    qed
  qed
qed

lemma bucket_index_less: "prof_backtrace_index rt D bt < PROF_HASH_TABLE_SIZE"
  by (simp add: prof_backtrace_index_def PROF_HASH_TABLE_SIZE_def)

lemma prof_ensure_slot_search:
  assumes ok: "struct_ok rt s h F B X"
  shows "prof_ensure_slot_loop s bt
           (prof_hash_table s ! prof_backtrace_index rt (prof_max_stack_depth s) bt)
           (prof_hash_table s ! prof_backtrace_index rt (prof_max_stack_depth s) bt) =
         Some (chain_search (prof_max_stack_depth s) h bt
                 (B (prof_backtrace_index rt (prof_max_stack_depth s) bt))
                 (prof_hash_table s ! prof_backtrace_index rt (prof_max_stack_depth s) bt))"
proof -
  let ?b = "prof_backtrace_index rt (prof_max_stack_depth s) bt"
  have hp: "prof_slot_heap s = Some h" using struct_ok_basic[OF ok] by simp
  have pa: "path h (prof_hash_table s ! ?b) (B ?b) None"
    using struct_ok_bucket[OF ok bucket_index_less[of rt "prof_max_stack_depth s" bt]] by simp
  show ?thesis by (rule prof_ensure_slot_loop_path[OF hp pa])
qed

lemma struct_ok_head_lastopt:
  assumes ok: "struct_ok rt s h F B X" and b: "b < PROF_HASH_TABLE_SIZE"
  shows "lastopt (prof_hash_table s ! b) (B b) = lastopt None (B b)"
  using struct_ok_bucket[OF ok b] by (cases "B b") (simp_all add: lastopt_def)

lemma prof_ensure_slot_found:
  assumes ok: "struct_ok rt s h F B X"
    and ex: "\<exists>y\<in>set (B (prof_backtrace_index rt (prof_max_stack_depth s) bt)).
               prof_backtrace_equal (prof_max_stack_depth s) bt (s_backtrace (h ! y))"
  shows "\<exists>x\<in>set (B (prof_backtrace_index rt (prof_max_stack_depth s) bt)).
           prof_backtrace_equal (prof_max_stack_depth s) bt (s_backtrace (h ! x)) \<and>
           prof_ensure_slot rt bt s = Some (x, s)"
proof -
  let ?b = "prof_backtrace_index rt (prof_max_stack_depth s) bt"
  let ?hd = "prof_hash_table s ! ?b"
  from chain_search_cases[of "prof_max_stack_depth s" h bt "B ?b" ?hd] ex
  obtain x pr where cs: "chain_search (prof_max_stack_depth s) h bt (B ?b) ?hd = (Some x, pr)"
    and x: "x \<in> set (B ?b)"
    and eq: "prof_backtrace_equal (prof_max_stack_depth s) bt (s_backtrace (h ! x))"
    by blast
  have "prof_ensure_slot rt bt s = Some (x, s)"
    by (simp add: prof_ensure_slot_def Let_def prof_ensure_slot_search[OF ok] cs)
  with x eq show ?thesis by blast
qed

lemma same_data_links:
  assumes sd: "same_data h1 h x" and l: "length h' = length h1"
    and d: "\<forall>i<length h1. s_used (h' ! i) = s_used (h1 ! i) \<and> s_count (h' ! i) = s_count (h1 ! i) \<and>
              s_backtrace (h' ! i) = s_backtrace (h1 ! i)"
  shows "same_data h' h x"
  using assms by (simp add: same_data_def)

lemma prof_ensure_slot_new:
  assumes ok: "struct_ok rt s h F B {}" and cnt: "count_ok s h {}" and n0: "0 < length h"
    and nf: "\<forall>y\<in>set (B (prof_backtrace_index rt (prof_max_stack_depth s) bt)).
               \<not> prof_backtrace_equal (prof_max_stack_depth s) bt (s_backtrace (h ! y))"
  shows "\<exists>x s' h'. prof_ensure_slot rt bt s = Some (x, s') \<and> x < length h \<and>
           struct_ok rt s' h' (tl F)
             (new_buckets B (prof_backtrace_index rt (prof_max_stack_depth s) bt) x) {} \<and>
           count_ok s' h' {} \<and> same_ctl s s' \<and> same_data h' h x \<and>
           s_used (h' ! x) \<and> s_count (h' ! x) = 0 \<and>
           s_backtrace (h' ! x) = map ((!) bt) [0..<prof_max_stack_depth s] \<and>
           (case F of
              [] \<Rightarrow> first_min h (length h) x \<and>
                    prof_others_count s' = prof_others_count s + s_count (h ! x)
            | y # F' \<Rightarrow> x = y \<and> prof_others_count s' = prof_others_count s)"
proof -
  let ?D = "prof_max_stack_depth s"
  let ?b = "prof_backtrace_index rt ?D bt"
  let ?hd = "prof_hash_table s ! ?b"
  have bl: "?b < PROF_HASH_TABLE_SIZE" by (rule bucket_index_less)
  have cs: "chain_search ?D h bt (B ?b) ?hd = (None, lastopt None (B ?b))"
    using chain_search_none[OF nf, of ?hd] struct_ok_head_lastopt[OF ok bl] by simp
  from prof_make_slot_ok[OF ok cnt n0, of bt]
  obtain x s1 h1 where mk: "prof_make_slot rt bt s = Some (x, s1)" and xl: "x < length h"
    and hx: "h1 ! x = fresh_slot ?D bt" and sd: "same_data h1 h x" and sc: "same_ctl s s1"
    and st1: "struct_ok rt s1 h1 (tl F) (\<lambda>c. remove1 x (B c)) {x}"
    and co1: "count_ok s1 h1 {x}"
    and cF: "(case F of
              [] \<Rightarrow> first_min h (length h) x \<and>
                    prof_others_count s1 = prof_others_count s + s_count (h ! x)
            | y # F' \<Rightarrow> x = y \<and> prof_others_count s1 = prof_others_count s \<and>
                    prof_hash_table s1 = prof_hash_table s)"
    by blast
  have D1: "prof_max_stack_depth s1 = ?D" using sc by (simp add: same_ctl_def)
  have hp1: "prof_slot_heap s1 = Some h1" using struct_ok_basic[OF st1] by simp
  have l1: "length h1 = length h" using sd by (simp add: same_data_def)
  have xl1: "x < length h1" using xl l1 by simp
  have nx: "s_next (h1 ! x) = None" and px: "s_prev (h1 ! x) = None" using hx by simp_all
  have ix: "prof_backtrace_index rt (prof_max_stack_depth s1) (s_backtrace (h1 ! x)) = ?b"
    using hx D1 by (simp add: prof_backtrace_index_copy)
  have cF': "(case F of
              [] \<Rightarrow> first_min h (length h) x \<and>
                    prof_others_count s1 = prof_others_count s + s_count (h ! x)
            | y # F' \<Rightarrow> x = y \<and> prof_others_count s1 = prof_others_count s)"
    using cF by (cases F) simp_all
  have w0: "\<forall>i<length h1. slot_weight h1 {} i = slot_weight h1 {x} i"
    using hx by (simp add: slot_weight_def)
  show ?thesis
  proof (cases "lastopt None (B ?b)")
    case None
    then have e: "B ?b = []" by (simp add: lastopt_def split: if_splits)
    let ?s' = "s1\<lparr>prof_hash_table := (prof_hash_table s1)[?b := Some x]\<rparr>"
    have ens: "prof_ensure_slot rt bt s = Some (x, ?s')"
      by (simp add: prof_ensure_slot_def Let_def prof_ensure_slot_search[OF ok] cs mk None D1)
    have "struct_ok rt ?s' h1 (tl F) ((\<lambda>c. remove1 x (B c))(?b := [x])) {}"
      by (rule struct_ok_link_head[OF st1 bl _ nx px ix]) (simp add: e)
    moreover have "new_buckets B ?b x = (\<lambda>c. remove1 x (B c))(?b := [x])"
      using None e by (simp add: new_buckets_def)
    ultimately have st: "struct_ok rt ?s' h1 (tl F) (new_buckets B ?b x) {}" by simp
    have co: "count_ok ?s' h1 {}"
      by (rule count_ok_data[OF co1]) (use w0 in simp_all)
    have sc': "same_ctl s ?s'" using sc by (simp add: same_ctl_def)
    have da: "s_used (h1 ! x) \<and> s_count (h1 ! x) = 0 \<and> s_backtrace (h1 ! x) = map ((!) bt) [0..<?D]"
      using hx by simp
    show ?thesis
      apply (rule exI[of _ x])
      apply (rule exI[of _ ?s'])
      apply (rule exI[of _ h1])
      using ens xl st co sc' sd da cF' by (cases F) simp_all
  next
    case (Some p)
    then have ne: "B ?b \<noteq> []" and pe: "p = last (B ?b)"
      by (simp_all add: lastopt_def split: if_splits)
    then have pb: "p \<in> set (B ?b)" by simp
    from struct_ok_member[OF ok bl pb] have pl: "p < length h" by simp
    then have pl1: "p < length h1" using l1 by simp
    let ?h2 = "h1[x := (h1 ! x)\<lparr>s_prev := Some p\<rparr>]"
    let ?h' = "?h2[p := (?h2 ! p)\<lparr>s_next := Some x\<rparr>]"
    let ?s' = "s1\<lparr>prof_slot_heap := Some ?h'\<rparr>"
    have u1: "upd_slot x (\<lambda>x. x\<lparr>s_prev := Some p\<rparr>) s1 = Some (s1\<lparr>prof_slot_heap := Some ?h2\<rparr>)"
      using upd_slot_Some[OF hp1 xl1] by simp
    have u2: "upd_slot p (\<lambda>y. y\<lparr>s_next := Some x\<rparr>) (s1\<lparr>prof_slot_heap := Some ?h2\<rparr>) = Some ?s'"
      using upd_slot_Some[of "s1\<lparr>prof_slot_heap := Some ?h2\<rparr>" ?h2 p] pl1 by simp
    have ens: "prof_ensure_slot rt bt s = Some (x, ?s')"
      by (simp add: prof_ensure_slot_def Let_def prof_ensure_slot_search[OF ok] cs mk Some u1 u2)
    have lh': "length ?h' = length h1" by simp
    have dat: "\<forall>i<length h1. s_used (?h' ! i) = s_used (h1 ! i) \<and>
                s_count (?h' ! i) = s_count (h1 ! i) \<and>
                s_backtrace (?h' ! i) = s_backtrace (h1 ! i)"
      using xl1 pl1 by (simp add: nth_list_update)
    have sd': "same_data ?h' h x" by (rule same_data_links[OF sd lh' dat])
    have co: "count_ok ?s' ?h' {}"
    proof (rule count_ok_data[OF co1 lh'])
      show "\<forall>i<length h1. slot_weight ?h' {} i = slot_weight h1 {x} i"
      proof (intro allI impI)
        fix i assume i: "i < length h1"
        with dat have "slot_weight ?h' {} i = slot_weight h1 {} i"
          unfolding slot_weight_def by metis
        with w0 i show "slot_weight ?h' {} i = slot_weight h1 {x} i" by simp
      qed
    qed simp_all
    have sc': "same_ctl s ?s'" using sc by (simp add: same_ctl_def)
    have da: "s_used (?h' ! x) \<and> s_count (?h' ! x) = 0 \<and>
              s_backtrace (?h' ! x) = map ((!) bt) [0..<?D]"
      using dat xl1 hx by simp
    have st: "struct_ok rt ?s' ?h' (tl F) (new_buckets B ?b x) {}"
    proof (cases "p = x")
      case True
      have "?h' = h1[x := (h1 ! x)\<lparr>s_prev := Some x, s_next := Some x\<rparr>]"
        using True xl1 by simp
      moreover have "new_buckets B ?b x = (\<lambda>c. remove1 x (B c))"
        using Some True by (simp add: new_buckets_def)
      ultimately show ?thesis using struct_ok_link_self[OF st1] by simp
    next
      case False
      from remove1_keeps_last[OF ne, of x] pe False
      obtain L' where L': "remove1 x (B ?b) = L' @ [p]" by auto
      have "?h' = h1[x := (h1 ! x)\<lparr>s_prev := Some p\<rparr>, p := (h1 ! p)\<lparr>s_next := Some x\<rparr>]"
        using False by simp
      moreover have "new_buckets B ?b x = (\<lambda>c. remove1 x (B c))(?b := L' @ [p, x])"
        using Some False L' by (simp add: new_buckets_def)
      ultimately show ?thesis using struct_ok_link_tail[OF st1 bl L' nx ix] by simp
    qed
    show ?thesis
      apply (rule exI[of _ x])
      apply (rule exI[of _ ?s'])
      apply (rule exI[of _ ?h'])
      using ens xl st co sc' sd' da cF' by (cases F) simp_all
  qed
qed

lemma struct_ok_count_upd:
  assumes ok: "struct_ok rt s h F B X" and x: "x < length h"
  shows "struct_ok rt (s\<lparr>prof_slot_heap := Some (h[x := (h ! x)\<lparr>s_count := c\<rparr>])\<rparr>)
           (h[x := (h ! x)\<lparr>s_count := c\<rparr>]) F B X"
proof -
  let ?h' = "h[x := (h ! x)\<lparr>s_count := c\<rparr>]"
  note ba = struct_ok_basic[OF ok]
  note fr = struct_ok_free[OF ok]
  have l: "length ?h' = length h" by simp
  have d: "\<And>i. i < length h \<Longrightarrow> s_next (?h' ! i) = s_next (h ! i) \<and>
             s_prev (?h' ! i) = s_prev (h ! i) \<and> s_used (?h' ! i) = s_used (h ! i) \<and>
             s_backtrace (?h' ! i) = s_backtrace (h ! i)"
    using x by (simp add: nth_list_update)
  have c_free: "path ?h' (prof_free_list s) F None"
    by (rule path_cong_next[of h]) (use fr d in auto)
  have c_set: "set F = {i. i < length ?h' \<and> \<not> s_used (?h' ! i)}"
  proof -
    have "{i. i < length ?h' \<and> \<not> s_used (?h' ! i)} = {i. i < length h \<and> \<not> s_used (h ! i)}"
      using d by auto
    with fr show ?thesis by simp
  qed
  have c_bt: "\<forall>i<length ?h'. length (s_backtrace (?h' ! i)) = prof_max_stack_depth s"
    using ba d by simp
  have c_bucket: "path ?h' (prof_hash_table s ! b) (B b) None \<and>
        prevs ?h' None (B b) \<and> distinct (B b) \<and>
        (\<forall>y\<in>set (B b). y < length ?h' \<and> s_used (?h' ! y) \<and> y \<notin> X \<and>
           prof_backtrace_index rt (prof_max_stack_depth s) (s_backtrace (?h' ! y)) = b)"
    if b: "b < PROF_HASH_TABLE_SIZE" for b
  proof -
    note bk = struct_ok_bucket[OF ok b]
    note mem = struct_ok_member[OF ok b]
    have P: "path ?h' (prof_hash_table s ! b) (B b) None"
      by (rule path_cong_next[of h]) (use bk mem d in auto)
    have R: "prevs ?h' None (B b)"
      by (rule prevs_cong_prev[of h]) (use bk mem d in auto)
    have M: "\<forall>y\<in>set (B b). y < length ?h' \<and> s_used (?h' ! y) \<and> y \<notin> X \<and>
           prof_backtrace_index rt (prof_max_stack_depth s) (s_backtrace (?h' ! y)) = b"
      using mem d by simp
    from P R M bk show ?thesis by simp
  qed
  have c_orph: "s_next (?h' ! i) = Some i \<and> s_prev (?h' ! i) = Some i"
    if i: "i < length ?h'" and iu: "s_used (?h' ! i)" and iX: "i \<notin> X"
      and nl: "\<forall>b<PROF_HASH_TABLE_SIZE. i \<notin> set (B b)" for i
    using struct_ok_orphan[OF ok _ _ iX nl] i iu d[of i] by simp
  have c_X: "X \<subseteq> {i. i < length ?h' \<and> s_used (?h' ! i)}"
  proof
    fix i assume "i \<in> X"
    with ok have "i < length h \<and> s_used (h ! i)" by (auto simp: struct_ok_def)
    with d[of i] show "i \<in> {i. i < length ?h' \<and> s_used (?h' ! i)}" by simp
  qed
  have c0: "prof_slot_heap_size s = length ?h'" "length (prof_hash_table s) = PROF_HASH_TABLE_SIZE"
    using ba by simp_all
  show ?thesis
    unfolding struct_ok_def
    using c0 c_bt c_free fr c_set c_bucket c_orph c_X
    by simp
qed

lemma count_ok_incr:
  assumes c: "count_ok s h {}" and x: "x < length h" and u: "s_used (h ! x)"
    and t: "prof_total_count s' = prof_total_count s + 1"
    and o: "prof_others_count s' = prof_others_count s"
  shows "count_ok s' (h[x := (h ! x)\<lparr>s_count := s_count (h ! x) + 1\<rparr>]) {}"
proof (rule count_ok_change[OF c x])
  let ?h' = "h[x := (h ! x)\<lparr>s_count := s_count (h ! x) + 1\<rparr>]"
  show "length ?h' = length h" by simp
  show "\<forall>i<length h. i \<noteq> x \<longrightarrow> slot_weight ?h' {} i = slot_weight h {} i"
    by (simp add: slot_weight_def)
  show "prof_total_count s' - prof_others_count s' - slot_weight ?h' {} x =
        prof_total_count s - prof_others_count s - slot_weight h {} x"
    using x u t o by (simp add: slot_weight_def)
qed

lemma length_prof_fill_backtrace [simp]:
  "length (prof_fill_backtrace rt D i bl buf) = length buf"
  by (induction rt D i bl buf rule: prof_fill_backtrace.induct) auto

lemma length_fold_nil [simp]:
  "length (fold (\<lambda>i b. b[i := v]) is buf) = length buf"
  by (induction "is" arbitrary: buf) auto

lemma length_prof_capture [simp]: "length (prof_capture rt D bl buf) = length buf"
  by (simp add: prof_capture_def)

lemma prof_signal_handler_nil:
  assumes "prof_backtrace s = Some buf0" and "prof_max_stack_depth s \<le> length buf0"
    and "0 < length buf0"
    and "NILP (prof_capture rt (prof_max_stack_depth s) bl buf0 ! 0)"
  shows "prof_signal_handler rt bl s =
         Some (s\<lparr>prof_backtrace := Some (prof_capture rt (prof_max_stack_depth s) bl buf0)\<rparr>)"
  using assms by (simp add: prof_signal_handler_def Let_def)

lemma struct_ok_backtrace_upd [simp]:
  "struct_ok rt (s\<lparr>prof_backtrace := b\<rparr>) h F B X = struct_ok rt s h F B X"
  by (simp add: struct_ok_def)

lemma struct_ok_total_upd [simp]:
  "struct_ok rt (s\<lparr>prof_total_count := c\<rparr>) h F B X = struct_ok rt s h F B X"
  by (simp add: struct_ok_def)

lemma count_ok_backtrace_upd [simp]:
  "count_ok (s\<lparr>prof_backtrace := b\<rparr>) h X = count_ok s h X"
  by (simp add: count_ok_def)

lemma prof_signal_handler_found:
  assumes ok: "struct_ok rt s h F B {}"
    and b0: "prof_backtrace s = Some buf0" and lb: "length buf0 = prof_max_stack_depth s"
    and d0: "0 < prof_max_stack_depth s"
    and nn: "\<not> NILP (prof_capture rt (prof_max_stack_depth s) bl buf0 ! 0)"
    and ex: "\<exists>y\<in>set (B (prof_backtrace_index rt (prof_max_stack_depth s)
                 (prof_capture rt (prof_max_stack_depth s) bl buf0))).
               prof_backtrace_equal (prof_max_stack_depth s)
                 (prof_capture rt (prof_max_stack_depth s) bl buf0) (s_backtrace (h ! y))"
  shows "\<exists>x\<in>set (B (prof_backtrace_index rt (prof_max_stack_depth s)
                 (prof_capture rt (prof_max_stack_depth s) bl buf0))).
           prof_backtrace_equal (prof_max_stack_depth s)
                 (prof_capture rt (prof_max_stack_depth s) bl buf0) (s_backtrace (h ! x)) \<and>
           prof_signal_handler rt bl s =
           Some (s\<lparr>prof_backtrace := Some (prof_capture rt (prof_max_stack_depth s) bl buf0),
                   prof_slot_heap := Some (h[x := (h ! x)\<lparr>s_count := s_count (h ! x) + 1\<rparr>]),
                   prof_total_count := prof_total_count s + 1\<rparr>)"
proof -
  let ?D = "prof_max_stack_depth s"
  let ?buf = "prof_capture rt ?D bl buf0"
  let ?s0 = "s\<lparr>prof_backtrace := Some ?buf\<rparr>"
  have ok0: "struct_ok rt ?s0 h F B {}" using ok by simp
  from prof_ensure_slot_found[OF ok0, of ?buf] ex
  obtain x where x: "x \<in> set (B (prof_backtrace_index rt ?D ?buf))"
    and eq: "prof_backtrace_equal ?D ?buf (s_backtrace (h ! x))"
    and en: "prof_ensure_slot rt ?buf ?s0 = Some (x, ?s0)" by auto
  from struct_ok_member[OF ok bucket_index_less x] have xl: "x < length h" by simp
  have hp: "prof_slot_heap ?s0 = Some h" using struct_ok_basic[OF ok] by simp
  have "prof_signal_handler rt bl s =
           Some (s\<lparr>prof_backtrace := Some ?buf,
                   prof_slot_heap := Some (h[x := (h ! x)\<lparr>s_count := s_count (h ! x) + 1\<rparr>]),
                   prof_total_count := prof_total_count s + 1\<rparr>)"
    using b0 lb d0 nn en upd_slot_Some[OF hp xl]
    by (simp add: prof_signal_handler_def Let_def)
  with x eq show ?thesis by blast
qed

lemma prof_signal_handler_new:
  assumes ok: "struct_ok rt s h F B {}" and cnt: "count_ok s h {}" and n0: "0 < length h"
    and b0: "prof_backtrace s = Some buf0" and lb: "length buf0 = prof_max_stack_depth s"
    and d0: "0 < prof_max_stack_depth s"
    and nn: "\<not> NILP (prof_capture rt (prof_max_stack_depth s) bl buf0 ! 0)"
    and nf: "\<forall>y\<in>set (B (prof_backtrace_index rt (prof_max_stack_depth s)
                 (prof_capture rt (prof_max_stack_depth s) bl buf0))).
               \<not> prof_backtrace_equal (prof_max_stack_depth s)
                 (prof_capture rt (prof_max_stack_depth s) bl buf0) (s_backtrace (h ! y))"
  shows "\<exists>x s' h'. prof_signal_handler rt bl s = Some s' \<and> x < length h \<and>
           struct_ok rt s' h' (tl F)
             (new_buckets B (prof_backtrace_index rt (prof_max_stack_depth s)
                 (prof_capture rt (prof_max_stack_depth s) bl buf0)) x) {} \<and>
           count_ok s' h' {} \<and>
           same_ctl (s\<lparr>prof_backtrace := Some (prof_capture rt (prof_max_stack_depth s) bl buf0),
                       prof_total_count := prof_total_count s + 1\<rparr>) s' \<and>
           same_data h' h x \<and> s_used (h' ! x) \<and> s_count (h' ! x) = 1 \<and>
           s_backtrace (h' ! x) = prof_capture rt (prof_max_stack_depth s) bl buf0 \<and>
           (case F of
              [] \<Rightarrow> first_min h (length h) x \<and>
                    prof_others_count s' = prof_others_count s + s_count (h ! x)
            | y # F' \<Rightarrow> x = y \<and> prof_others_count s' = prof_others_count s)"
proof -
  let ?D = "prof_max_stack_depth s"
  let ?buf = "prof_capture rt ?D bl buf0"
  let ?s0 = "s\<lparr>prof_backtrace := Some ?buf\<rparr>"
  have ok0: "struct_ok rt ?s0 h F B {}" using ok by simp
  have cnt0: "count_ok ?s0 h {}" using cnt by simp
  have nf0: "\<forall>y\<in>set (B (prof_backtrace_index rt (prof_max_stack_depth ?s0) ?buf)).
               \<not> prof_backtrace_equal (prof_max_stack_depth ?s0) ?buf (s_backtrace (h ! y))"
    using nf by simp
  from prof_ensure_slot_new[OF ok0 cnt0 n0 nf0]
  obtain x s1 h1 where en: "prof_ensure_slot rt ?buf ?s0 = Some (x, s1)" and xl: "x < length h"
    and st1: "struct_ok rt s1 h1 (tl F) (new_buckets B (prof_backtrace_index rt ?D ?buf) x) {}"
    and co1: "count_ok s1 h1 {}" and sc1: "same_ctl ?s0 s1" and sd1: "same_data h1 h x"
    and u1: "s_used (h1 ! x)" and c1: "s_count (h1 ! x) = 0"
    and bt1: "s_backtrace (h1 ! x) = map ((!) ?buf) [0..<?D]"
    and cF: "(case F of
              [] \<Rightarrow> first_min h (length h) x \<and>
                    prof_others_count s1 = prof_others_count ?s0 + s_count (h ! x)
            | y # F' \<Rightarrow> x = y \<and> prof_others_count s1 = prof_others_count ?s0)"
    by auto
  have hp1: "prof_slot_heap s1 = Some h1" using struct_ok_basic[OF st1] by simp
  have l1: "length h1 = length h" using sd1 by (simp add: same_data_def)
  have xl1: "x < length h1" using xl l1 by simp
  let ?h' = "h1[x := (h1 ! x)\<lparr>s_count := s_count (h1 ! x) + 1\<rparr>]"
  let ?s2 = "s1\<lparr>prof_slot_heap := Some ?h'\<rparr>"
  let ?s' = "?s2\<lparr>prof_total_count := prof_total_count ?s2 + 1\<rparr>"
  have hd: "prof_signal_handler rt bl s = Some ?s'"
    using b0 lb d0 nn en upd_slot_Some[OF hp1 xl1]
    by (simp add: prof_signal_handler_def Let_def)
  have "struct_ok rt ?s2 ?h' (tl F) (new_buckets B (prof_backtrace_index rt ?D ?buf) x) {}"
    by (rule struct_ok_count_upd[OF st1 xl1])
  then have st: "struct_ok rt ?s' ?h' (tl F) (new_buckets B (prof_backtrace_index rt ?D ?buf) x) {}"
    by simp
  have co: "count_ok ?s' ?h' {}"
    by (rule count_ok_incr[OF co1 xl1 u1]) simp_all
  have sc: "same_ctl (s\<lparr>prof_backtrace := Some ?buf, prof_total_count := prof_total_count s + 1\<rparr>) ?s'"
    using sc1 by (simp add: same_ctl_def)
  have sd: "same_data ?h' h x" using sd1 by (simp add: same_data_def)
  have "length ?buf = ?D" using lb by simp
  then have "map ((!) ?buf) [0..<?D] = ?buf" by (metis map_nth)
  with bt1 u1 c1 xl1 have da: "s_used (?h' ! x) \<and> s_count (?h' ! x) = 1 \<and> s_backtrace (?h' ! x) = ?buf"
    by simp
  have cF': "(case F of
              [] \<Rightarrow> first_min h (length h) x \<and>
                    prof_others_count ?s' = prof_others_count s + s_count (h ! x)
            | y # F' \<Rightarrow> x = y \<and> prof_others_count ?s' = prof_others_count s)"
    using cF by (cases F) simp_all
  show ?thesis
    apply (rule exI[of _ x])
    apply (rule exI[of _ ?s'])
    apply (rule exI[of _ ?h'])
    using hd xl st co sc sd da cF' by blast
qed

lemma path_init:
  fixes f :: "nat \<Rightarrow> ('w::len) prof_slot"
  assumes nx: "\<forall>i<N. s_next (f i) = (if i + 1 < N then Some (i + 1) else None)"
  shows "i \<le> N \<Longrightarrow> path (map f [0..<N]) (if i < N then Some i else None) [i..<N] None"
proof (induction "N - i" arbitrary: i)
  case 0
  then show ?case by simp
next
  case (Suc k)
  then have lt: "i < N" by simp
  have "k = N - (i + 1)" using Suc.hyps(2) by simp
  from Suc.hyps(1)[OF this] lt
  have ih: "path (map f [0..<N]) (if i + 1 < N then Some (i + 1) else None) [i + 1..<N] None"
    by simp
  have e: "[i..<N] = i # [i + 1..<N]" using lt by (simp add: upt_conv_Cons)
  have nth: "map f [0..<N] ! i = f i" using lt by simp
  have "s_next (f i) = (if i + 1 < N then Some (i + 1) else None)" using nx lt by simp
  with ih nth lt have "path (map f [0..<N]) (Some i) (i # [i + 1..<N]) None" by simp
  with e lt show ?case by simp
qed

lemma prof_init_closed:
  "prof_init junk s =
     (let D = unsigned_int (profiler_max_stack_depth s);
          N = unsigned_int (profiler_slot_heap_size s) in
      if N = 0 then None
      else Some (s\<lparr>
        prof_max_stack_depth := D,
        prof_backtrace := Some (take D (s_backtrace (junk N) @ replicate D Qnil)),
        prof_hash_table := replicate PROF_HASH_TABLE_SIZE None,
        prof_slot_heap_size := N,
        prof_slot_heap := Some (map (\<lambda>i. (junk i)\<lparr>
            s_used := False,
            s_backtrace := take D (s_backtrace (junk i) @ replicate D Qnil),
            s_next := (if i + 1 < N then Some (i + 1) else None)\<rparr>) [0..<N]),
        prof_free_list := Some 0,
        prof_total_count := 0,
        prof_others_count := 0\<rparr>))"
  by (simp add: prof_init_def prof_init_alloc_def prof_init_free_list_def
      prof_init_counters_def Let_def cong: map_cong)

lemma prof_init_interrupted_none [simp]:
  "prof_init_interrupted rt junk [] [] s = prof_init junk s"
  by (simp add: prof_init_interrupted_def prof_init_def)

lemma Fprofiler_start_sampling_interrupted_none [simp]:
  "Fprofiler_start_sampling_interrupted rt sa_ok it_ok junk now interval [] [] s =
   Fprofiler_start_sampling rt sa_ok it_ok junk now interval s"
  by (simp add: Fprofiler_start_sampling_interrupted_def Fprofiler_start_sampling_def)

lemma prof_init_ok:
  assumes i: "prof_init junk s = Some s'"
  shows "\<exists>h. prof_slot_heap s' = Some h \<and> 0 < length h \<and>
           struct_ok rt s' h [0..<length h] (\<lambda>b. []) {} \<and> count_ok s' h {} \<and>
           length h = unsigned_int (profiler_slot_heap_size s) \<and>
           prof_max_stack_depth s' = unsigned_int (profiler_max_stack_depth s) \<and>
           (\<exists>buf. prof_backtrace s' = Some buf \<and> length buf = prof_max_stack_depth s') \<and>
           prof_total_count s' = 0 \<and> prof_others_count s' = 0 \<and>
           (\<forall>i<length h. \<not> s_used (h ! i))"
proof -
  let ?D = "unsigned_int (profiler_max_stack_depth s)"
  let ?N = "unsigned_int (profiler_slot_heap_size s)"
  let ?f = "\<lambda>i. (junk i)\<lparr>s_used := False,
            s_backtrace := take ?D (s_backtrace (junk i) @ replicate ?D Qnil),
            s_next := (if i + 1 < ?N then Some (i + 1) else None)\<rparr>"
  let ?h = "map ?f [0..<?N]"
  from i have N0: "?N \<noteq> 0" by (auto simp: prof_init_closed Let_def split: if_splits)
  from i N0 have s': "s' = s\<lparr>
        prof_max_stack_depth := ?D,
        prof_backtrace := Some (take ?D (s_backtrace (junk ?N) @ replicate ?D Qnil)),
        prof_hash_table := replicate PROF_HASH_TABLE_SIZE None,
        prof_slot_heap_size := ?N,
        prof_slot_heap := Some ?h,
        prof_free_list := Some 0,
        prof_total_count := 0,
        prof_others_count := 0\<rparr>"
    by (simp add: prof_init_closed Let_def)
  have pa: "path ?h (Some 0) [0..<?N] None"
    using path_init[of ?N ?f 0] N0 by simp
  have un: "\<forall>i<length ?h. \<not> s_used (?h ! i)" by simp
  have st: "struct_ok rt s' ?h [0..<length ?h] (\<lambda>b. []) {}"
    unfolding struct_ok_def using pa by (auto simp: s')
  have "(\<Sum>i<length ?h. slot_weight ?h {} i) = 0"
    by (rule sum.neutral) (simp add: slot_weight_def)
  then have co: "count_ok s' ?h {}" by (simp add: count_ok_def s')
  show ?thesis
    apply (rule exI[of _ ?h])
    using st co un N0 by (simp add: s')
qed

lemma struct_ok_transfer:
  "struct_ok rt s h F B X \<Longrightarrow>
   prof_slot_heap s' = prof_slot_heap s \<Longrightarrow> prof_slot_heap_size s' = prof_slot_heap_size s \<Longrightarrow>
   prof_hash_table s' = prof_hash_table s \<Longrightarrow>
   prof_max_stack_depth s' = prof_max_stack_depth s \<Longrightarrow>
   prof_free_list s' = prof_free_list s \<Longrightarrow>
   struct_ok rt s' h F B X"
  by (simp add: struct_ok_def)

lemma count_ok_fields:
  "prof_total_count s' = prof_total_count s \<Longrightarrow> prof_others_count s' = prof_others_count s \<Longrightarrow>
   count_ok s' h X = count_ok s h X"
  by (simp add: count_ok_def)

lemma prof_inv_fields:
  assumes "prof_slot_heap s' = prof_slot_heap s" "prof_slot_heap_size s' = prof_slot_heap_size s"
    "prof_hash_table s' = prof_hash_table s" "prof_max_stack_depth s' = prof_max_stack_depth s"
    "prof_free_list s' = prof_free_list s" "prof_total_count s' = prof_total_count s"
    "prof_others_count s' = prof_others_count s" "prof_backtrace s' = prof_backtrace s"
  shows "prof_inv rt s' = prof_inv rt s"
  using assms
  by (simp add: prof_inv_def struct_ok_fields[of s' s] count_ok_fields[of s' s]
      split: option.splits)

lemma prof_signal_handler_inv_total:
  assumes inv: "prof_inv rt s" and hp: "prof_slot_heap s = Some h"
    and d0: "0 < prof_max_stack_depth s"
  shows "\<exists>s' h'. prof_signal_handler rt bl s = Some s' \<and> prof_inv rt s' \<and>
           prof_slot_heap s' = Some h' \<and> length h' = length h \<and>
           prof_max_stack_depth s' = prof_max_stack_depth s \<and>
           prof_slot_heap_size s' = prof_slot_heap_size s"
proof -
  let ?D = "prof_max_stack_depth s"
  from inv hp obtain F B buf0 where n0: "0 < length h" and ok: "struct_ok rt s h F B {}"
    and cnt: "count_ok s h {}" and b0: "prof_backtrace s = Some buf0"
    and lb: "length buf0 = ?D"
    by (auto simp: prof_inv_def)
  let ?buf = "prof_capture rt ?D bl buf0"
  let ?b = "prof_backtrace_index rt ?D ?buf"
  have lbuf: "length ?buf = ?D" using lb by simp
  note ba = struct_ok_basic[OF ok]
  show ?thesis
  proof (cases "NILP (?buf ! 0)")
    case True
    let ?s' = "s\<lparr>prof_backtrace := Some ?buf\<rparr>"
    have "prof_signal_handler rt bl s = Some ?s'"
      using prof_signal_handler_nil[OF b0 _ _ True] lb d0 by simp
    moreover have "prof_inv rt ?s'"
      using n0 ok cnt lbuf hp by (auto simp: prof_inv_def)
    ultimately show ?thesis using hp by simp
  next
    case False
    show ?thesis
    proof (cases "\<exists>y\<in>set (B ?b). prof_backtrace_equal ?D ?buf (s_backtrace (h ! y))")
      case True
      from prof_signal_handler_found[OF ok b0 lb d0 False True]
      obtain x where x: "x \<in> set (B ?b)"
        and hd: "prof_signal_handler rt bl s =
           Some (s\<lparr>prof_backtrace := Some ?buf,
                   prof_slot_heap := Some (h[x := (h ! x)\<lparr>s_count := s_count (h ! x) + 1\<rparr>]),
                   prof_total_count := prof_total_count s + 1\<rparr>)" by blast
      let ?h' = "h[x := (h ! x)\<lparr>s_count := s_count (h ! x) + 1\<rparr>]"
      let ?s' = "s\<lparr>prof_backtrace := Some ?buf, prof_slot_heap := Some ?h',
                   prof_total_count := prof_total_count s + 1\<rparr>"
      from struct_ok_member[OF ok bucket_index_less x]
      have xl: "x < length h" and xu: "s_used (h ! x)" by simp_all
      have st: "struct_ok rt ?s' ?h' F B {}"
        by (rule struct_ok_transfer[OF struct_ok_count_upd[OF ok xl]]) simp_all
      have co: "count_ok ?s' ?h' {}"
        by (rule count_ok_incr[OF cnt xl xu]) simp_all
      have "prof_inv rt ?s'"
        using n0 st co lbuf by (auto simp: prof_inv_def)
      with hd show ?thesis by simp
    next
      case nf: False
      then have nf': "\<forall>y\<in>set (B ?b). \<not> prof_backtrace_equal ?D ?buf (s_backtrace (h ! y))"
        by blast
      from prof_signal_handler_new[OF ok cnt n0 b0 lb d0 False nf']
      obtain x s' h' where hd: "prof_signal_handler rt bl s = Some s'"
        and st: "struct_ok rt s' h' (tl F) (new_buckets B ?b x) {}"
        and co: "count_ok s' h' {}"
        and sc: "same_ctl (s\<lparr>prof_backtrace := Some ?buf,
                       prof_total_count := prof_total_count s + 1\<rparr>) s'"
        and sd: "same_data h' h x"
        by blast
      have hp': "prof_slot_heap s' = Some h'" using struct_ok_basic[OF st] by simp
      have l': "length h' = length h" using sd by (simp add: same_data_def)
      from sc have f: "prof_backtrace s' = Some ?buf" "prof_max_stack_depth s' = ?D"
        "prof_slot_heap_size s' = prof_slot_heap_size s"
        by (simp_all add: same_ctl_def)
      have "prof_inv rt s'"
        using n0 st co lbuf hp' l' f by (auto simp: prof_inv_def)
      with hd hp' l' f show ?thesis by simp
    qed
  qed
qed

lemma prof_signal_handler_inv:
  assumes inv: "prof_inv rt s" and hd: "prof_signal_handler rt bl s = Some s'"
  shows "prof_inv rt s'"
proof (cases "prof_slot_heap s")
  case None
  with inv have "prof_backtrace s = None" by (simp add: prof_inv_def)
  with hd show ?thesis by (simp add: prof_signal_handler_def)
next
  case (Some h)
  show ?thesis
  proof (cases "0 < prof_max_stack_depth s")
    case True
    from prof_signal_handler_inv_total[OF inv Some True, of bl] hd show ?thesis by auto
  next
    case False
    from inv Some obtain buf0 where "prof_backtrace s = Some buf0"
      "length buf0 = prof_max_stack_depth s" by (auto simp: prof_inv_def)
    with False hd show ?thesis by (simp add: prof_signal_handler_def)
  qed
qed

lemma prof_inv_initial: "prof_inv rt (syms_of_profiler z)"
  by (simp add: prof_inv_def syms_of_profiler_def)

lemma prof_inv_init:
  assumes i: "prof_init junk s = Some s'"
  shows "prof_inv rt s'"
proof -
  from prof_init_ok[OF i, of rt] obtain h buf where hp: "prof_slot_heap s' = Some h"
    and n0: "0 < length h" and st: "struct_ok rt s' h [0..<length h] (\<lambda>b. []) {}"
    and co: "count_ok s' h {}"
    and b: "prof_backtrace s' = Some buf" "length buf = prof_max_stack_depth s'"
    by blast
  from n0 st co b show ?thesis by (auto simp: prof_inv_def hp)
qed

lemma prof_inv_start:
  assumes inv: "prof_inv rt s"
    and st: "Fprofiler_start_sampling rt sa_ok it_ok junk now interval s = Some (r, s')"
  shows "prof_inv rt s'"
proof -
  let ?f = "\<lambda>s1. setitimer_PROF it_ok (Some (XINT rt interval * 1000))
              (sigaction_SIGPROF sa_ok
                (s1\<lparr>prof_mode := intern ''sample'', prof_start_time := now,
                     prof_sample_interval := interval\<rparr>))"
  have fi: "\<And>s1. prof_inv rt (?f s1) = prof_inv rt s1"
    by (rule prof_inv_fields) (simp_all add: setitimer_PROF_def sigaction_SIGPROF_def)
  show ?thesis
  proof (cases "prof_slot_heap s")
    case None
    with st obtain s1 where i: "prof_init junk s = Some s1" and e: "s' = ?f s1"
      by (auto simp: Fprofiler_start_sampling_def Let_def split: option.splits bind_splits)
    from prof_inv_init[OF i, of rt] fi[of s1] e show ?thesis by simp
  next
    case (Some h)
    with st have "s' = ?f s"
      by (auto simp: Fprofiler_start_sampling_def Let_def)
    with inv fi[of s] show ?thesis by simp
  qed
qed

lemma prof_inv_stop: "prof_inv rt s \<Longrightarrow> prof_inv rt (Fprofiler_stop_sampling it_ok s)"
  using prof_inv_fields[of "Fprofiler_stop_sampling it_ok s" s rt]
  by (simp add: Fprofiler_stop_sampling_def setitimer_PROF_def)

lemma prof_inv_reset: "prof_inv rt s \<Longrightarrow> prof_inv rt (Fprofiler_reset s)"
  by (cases "prof_slot_heap s")
     (simp_all add: Fprofiler_reset_def prof_block_signal_def prof_unblock_signal_def
        prof_inv_def Let_def)

lemma prof_inv_snapshot:
  assumes inv: "prof_inv rt s" and sn: "Fprofiler_take_snapshot rt now s = Some (r, s')"
  shows "prof_inv rt s'"
proof -
  from sn have "s' = prof_unblock_signal (prof_block_signal s)"
    by (auto simp: Fprofiler_take_snapshot_def Let_def split: bind_splits)
  with inv prof_inv_fields[of s' s rt] show ?thesis
    by (simp add: prof_block_signal_def prof_unblock_signal_def)
qed

lemma prof_inv_step:
  assumes inv: "prof_inv rt s" and at: "atomic_event e"
    and st: "prof_step rt junk e s = Some s'"
  shows "prof_inv rt s'"
proof (cases e)
  case (Configure D N)
  with st have "s' = s\<lparr>profiler_max_stack_depth := D, profiler_slot_heap_size := N\<rparr>" by simp
  with inv prof_inv_fields[of s' s rt] show ?thesis by simp
next
  case (Start_sampling sa_ok it_ok now interval irq1 irq2)
  with st at obtain r where
    "Fprofiler_start_sampling rt sa_ok it_ok junk now interval s = Some (r, s')"
    by auto
  from prof_inv_start[OF inv this] show ?thesis .
next
  case (Stop_sampling it_ok)
  with st inv show ?thesis by (auto simp: prof_inv_stop)
next
  case Reset
  with st inv show ?thesis by (auto simp: prof_inv_reset)
next
  case (Take_snapshot now)
  with st obtain r where "Fprofiler_take_snapshot rt now s = Some (r, s')" by auto
  from prof_inv_snapshot[OF inv this] show ?thesis .
next
  case (Signal bl)
  with st have "prof_signal_handler rt bl s = Some s'" by simp
  from prof_signal_handler_inv[OF inv this] show ?thesis .
qed

lemma prof_inv_run:
  "prof_inv rt s \<Longrightarrow> list_all atomic_event es \<Longrightarrow> prof_run rt junk es s = Some s' \<Longrightarrow>
   prof_inv rt s'"
proof (induction es arbitrary: s)
  case Nil
  then show ?case by simp
next
  case (Cons e es)
  from Cons.prems(2) have at: "atomic_event e" and ats: "list_all atomic_event es" by simp_all
  from Cons.prems(3) obtain s1 where s1: "prof_step rt junk e s = Some s1"
    and r: "prof_run rt junk es s1 = Some s'" by (auto split: bind_splits)
  from Cons.IH[OF prof_inv_step[OF Cons.prems(1) at s1] ats r] show ?case .
qed

section \<open>The counters and the filling of the pool\<close>

lemma sum_weights_sum_list:
  "(\<Sum>i<length h. slot_weight h {} i) = sum_list (map s_count (filter s_used h))"
proof -
  have "sum_list (map s_count (filter s_used h)) =
        sum_list (map (\<lambda>sl. if s_used sl then s_count sl else 0) h)"
    by (induction h) simp_all
  also have "\<dots> = (\<Sum>i<length h. (map (\<lambda>sl. if s_used sl then s_count sl else 0) h) ! i)"
    by (simp add: sum_list_sum_nth atLeast0LessThan)
  also have "\<dots> = (\<Sum>i<length h. slot_weight h {} i)"
    by (rule sum.cong) (simp_all add: slot_weight_def)
  finally show ?thesis by simp
qed

lemma count_ok_counts_balance: "count_ok s h {} = counts_balance s h"
  by (simp add: count_ok_def counts_balance_def sum_weights_sum_list)

lemma evict_count_ok:
  assumes ok: "struct_ok rt s h F B {}" and cnt: "count_ok s h {}"
    and v: "v < length h" and u: "s_used (h ! v)"
  shows "count_ok
           (s\<lparr>prof_others_count := prof_others_count s + s_count (h ! v),
              prof_hash_table := unlink_table rt s h v,
              prof_slot_heap := Some (free_heap h v (prof_free_list s)),
              prof_free_list := Some v\<rparr>)
           (free_heap h v (prof_free_list s)) {}"
proof (rule count_ok_change[OF cnt v])
  let ?h' = "free_heap h v (prof_free_list s)"
  show "length ?h' = length h" by (simp add: free_heap_def)
  show "\<forall>i<length h. i \<noteq> v \<longrightarrow> slot_weight ?h' {} i = slot_weight h {} i"
    by (simp add: slot_weight_def free_heap_def unlink_heap_data)
  show "prof_total_count (s\<lparr>prof_others_count := prof_others_count s + s_count (h ! v),
              prof_hash_table := unlink_table rt s h v,
              prof_slot_heap := Some ?h', prof_free_list := Some v\<rparr>) -
        prof_others_count (s\<lparr>prof_others_count := prof_others_count s + s_count (h ! v),
              prof_hash_table := unlink_table rt s h v,
              prof_slot_heap := Some ?h', prof_free_list := Some v\<rparr>) -
        slot_weight ?h' {} v =
        prof_total_count s - prof_others_count s - slot_weight h {} v"
    using v u by (simp add: slot_weight_def free_heap_def algebra_simps)
qed

lemma prof_ensure_slot_count_ok:
  assumes ok: "struct_ok rt s h F B {}" and cnt: "count_ok s h {}" and n0: "0 < length h"
  shows "\<exists>x s' h'. prof_ensure_slot rt bt s = Some (x, s') \<and> x < length h \<and>
           prof_slot_heap s' = Some h' \<and> count_ok s' h' {}"
proof (cases "\<exists>y\<in>set (B (prof_backtrace_index rt (prof_max_stack_depth s) bt)).
               prof_backtrace_equal (prof_max_stack_depth s) bt (s_backtrace (h ! y))")
  case True
  from prof_ensure_slot_found[OF ok True]
  obtain x where x: "x \<in> set (B (prof_backtrace_index rt (prof_max_stack_depth s) bt))"
    and e: "prof_ensure_slot rt bt s = Some (x, s)" by blast
  from struct_ok_member[OF ok bucket_index_less x] have "x < length h" by simp
  with e cnt struct_ok_basic[OF ok] show ?thesis by blast
next
  case False
  then have nf: "\<forall>y\<in>set (B (prof_backtrace_index rt (prof_max_stack_depth s) bt)).
               \<not> prof_backtrace_equal (prof_max_stack_depth s) bt (s_backtrace (h ! y))"
    by blast
  from prof_ensure_slot_new[OF ok cnt n0 nf]
  obtain x s' h' where e: "prof_ensure_slot rt bt s = Some (x, s')" and xl: "x < length h"
    and st: "struct_ok rt s' h' (tl F)
             (new_buckets B (prof_backtrace_index rt (prof_max_stack_depth s) bt) x) {}"
    and co: "count_ok s' h' {}" by blast
  from e xl co struct_ok_basic[OF st] show ?thesis by blast
qed

text \<open>
  The captured backtrace does not depend on what the buffer held before.
\<close>

lemma nth_fold_upd:
  "j < length buf \<Longrightarrow>
   fold (\<lambda>i b. b[i := v]) is buf ! j = (if j \<in> set is then v else buf ! j)"
  by (induction "is" arbitrary: buf) (auto simp: nth_list_update)

lemma fold_nil_replicate:
  "length buf = D \<Longrightarrow> fold (\<lambda>i b. b[i := Qnil]) [0..<D] buf = replicate D Qnil"
  by (simp add: list_eq_iff_nth_eq nth_fold_upd)

lemma capture_sample_key:
  "length buf = D \<Longrightarrow> prof_capture rt D bl buf = sample_key rt D bl"
  by (simp add: prof_capture_def sample_key_def fold_nil_replicate)

lemma length_sample_key [simp]: "length (sample_key rt D bl) = D"
  by (simp add: sample_key_def)

lemma used_slots_finite [simp]: "finite (used_slots h)"
  by (simp add: used_slots_def)

lemma used_slots_card_le: "card (used_slots h) \<le> length h"
proof -
  have "used_slots h \<subseteq> {..<length h}" by (auto simp: used_slots_def)
  from card_mono[OF _ this] show ?thesis by simp
qed

lemma used_slots_full:
  assumes "card (used_slots h) = length h"
  shows "\<forall>i<length h. s_used (h ! i)"
proof -
  have sub: "used_slots h \<subseteq> {..<length h}" by (auto simp: used_slots_def)
  have "used_slots h = {..<length h}"
    by (rule card_subset_eq[OF _ sub]) (simp_all add: assms)
  then show ?thesis by (auto simp: used_slots_def)
qed

lemma fill_ok_card:
  assumes fo: "fill_ok rt s h F B K"
  shows "finite K \<and> card K = card (used_slots h)"
proof -
  from fo have inj: "inj_on (\<lambda>i. s_backtrace (h ! i)) (used_slots h)"
    and im: "(\<lambda>i. s_backtrace (h ! i)) ` used_slots h = K"
    by (simp_all add: fill_ok_def)
  from im have "finite K" by auto
  moreover from card_image[OF inj] im have "card K = card (used_slots h)" by simp
  ultimately show ?thesis by simp
qed

lemma fill_ok_free_list:
  assumes fo: "fill_ok rt s h F B K"
  shows "(F = []) = (card K = length h)"
proof -
  from fo have ok: "struct_ok rt s h F B {}" by (simp add: fill_ok_def)
  from struct_ok_free[OF ok] have fr: "set F = {i. i < length h \<and> \<not> s_used (h ! i)}" by simp
  from fill_ok_card[OF fo] have c: "card K = card (used_slots h)" by simp
  show ?thesis
  proof
    assume "F = []"
    with fr have "\<forall>i<length h. s_used (h ! i)" by auto
    then have "used_slots h = {..<length h}" by (auto simp: used_slots_def)
    with c show "card K = length h" by simp
  next
    assume "card K = length h"
    with c used_slots_full[of h] have "\<forall>i<length h. s_used (h ! i)" by simp
    with fr have "set F = {}" by auto
    then show "F = []" by simp
  qed
qed

lemma fill_ok_lookup:
  assumes fo: "fill_ok rt s h F B K" and lk: "length k = prof_max_stack_depth s"
  shows "(\<exists>y\<in>set (B (prof_backtrace_index rt (prof_max_stack_depth s) k)).
            prof_backtrace_equal (prof_max_stack_depth s) k (s_backtrace (h ! y))) = (k \<in> K)"
proof
  let ?D = "prof_max_stack_depth s"
  from fo have ok: "struct_ok rt s h F B {}"
    and im: "(\<lambda>i. s_backtrace (h ! i)) ` used_slots h = K"
    by (simp_all add: fill_ok_def)
  note ba = struct_ok_basic[OF ok]
  assume "\<exists>y\<in>set (B (prof_backtrace_index rt ?D k)). prof_backtrace_equal ?D k (s_backtrace (h ! y))"
  then obtain y where y: "y \<in> set (B (prof_backtrace_index rt ?D k))"
    and e: "prof_backtrace_equal ?D k (s_backtrace (h ! y))" by blast
  from struct_ok_member[OF ok bucket_index_less y]
  have yl: "y < length h" and yu: "s_used (h ! y)" by simp_all
  from ba yl have "length (s_backtrace (h ! y)) = ?D" by simp
  with e lk have "s_backtrace (h ! y) = k" by (simp add: prof_backtrace_equal_lists)
  moreover from yl yu have "y \<in> used_slots h" by (simp add: used_slots_def)
  ultimately show "k \<in> K" using im by blast
next
  let ?D = "prof_max_stack_depth s"
  from fo have im: "(\<lambda>i. s_backtrace (h ! i)) ` used_slots h = K"
    and no: "\<forall>i\<in>used_slots h.
        i \<in> set (B (prof_backtrace_index rt ?D (s_backtrace (h ! i))))"
    by (simp_all add: fill_ok_def)
  assume "k \<in> K"
  with im obtain i where i: "i \<in> used_slots h" and e: "s_backtrace (h ! i) = k" by blast
  from no i e have "i \<in> set (B (prof_backtrace_index rt ?D k))" by auto
  moreover have "prof_backtrace_equal ?D k (s_backtrace (h ! i))"
    using e by (simp add: prof_backtrace_equal_iff)
  ultimately show "\<exists>y\<in>set (B (prof_backtrace_index rt ?D k)).
      prof_backtrace_equal ?D k (s_backtrace (h ! y))" by blast
qed

lemma sample_evicts_iff:
  assumes ok: "struct_ok rt s h F B {}"
    and b0: "prof_backtrace s = Some buf0" and lb: "length buf0 = prof_max_stack_depth s"
    and d0: "0 < prof_max_stack_depth s"
  shows "sample_evicts rt bl s =
         (\<not> NILP (prof_capture rt (prof_max_stack_depth s) bl buf0 ! 0) \<and>
          (\<forall>y\<in>set (B (prof_backtrace_index rt (prof_max_stack_depth s)
                 (prof_capture rt (prof_max_stack_depth s) bl buf0))).
               \<not> prof_backtrace_equal (prof_max_stack_depth s)
                 (prof_capture rt (prof_max_stack_depth s) bl buf0) (s_backtrace (h ! y))) \<and>
          F = [])"
proof -
  let ?D = "prof_max_stack_depth s"
  let ?buf = "prof_capture rt ?D bl buf0"
  let ?s0 = "s\<lparr>prof_backtrace := Some ?buf\<rparr>"
  let ?b = "prof_backtrace_index rt ?D ?buf"
  have ok0: "struct_ok rt ?s0 h F B {}" using ok by simp
  from prof_ensure_slot_search[OF ok0, of ?buf]
  have lp: "prof_ensure_slot_loop ?s0 ?buf (prof_hash_table s ! ?b) (prof_hash_table s ! ?b) =
            Some (chain_search ?D h ?buf (B ?b) (prof_hash_table s ! ?b))" by simp
  have fe: "(prof_free_list s = None) = (F = [])" by (rule struct_ok_free_empty[OF ok])
  from chain_search_cases[of ?D h ?buf "B ?b" "prof_hash_table s ! ?b"]
  show ?thesis
  proof
    assume "\<exists>x pr. chain_search ?D h ?buf (B ?b) (prof_hash_table s ! ?b) = (Some x, pr) \<and>
        x \<in> set (B ?b) \<and> prof_backtrace_equal ?D ?buf (s_backtrace (h ! x))"
    then obtain x pr where
      c: "chain_search ?D h ?buf (B ?b) (prof_hash_table s ! ?b) = (Some x, pr)"
      and x: "x \<in> set (B ?b)" "prof_backtrace_equal ?D ?buf (s_backtrace (h ! x))" by blast
    have "\<not> sample_evicts rt bl s"
      using b0 lb d0 lp c by (simp add: sample_evicts_def Let_def)
    with x show ?thesis by blast
  next
    assume a: "chain_search ?D h ?buf (B ?b) (prof_hash_table s ! ?b) =
        (None, lastopt (prof_hash_table s ! ?b) (B ?b)) \<and>
      (\<forall>x\<in>set (B ?b). \<not> prof_backtrace_equal ?D ?buf (s_backtrace (h ! x)))"
    then have "sample_evicts rt bl s = (\<not> NILP (?buf ! 0) \<and> F = [])"
      using b0 lb d0 lp fe by (simp add: sample_evicts_def Let_def)
    with a show ?thesis by blast
  qed
qed

lemma new_buckets_other:
  "i \<noteq> x \<Longrightarrow> (i \<in> set (new_buckets B b x c)) = (i \<in> set (B c))"
  by (simp add: new_buckets_def)

lemma new_buckets_self:
  assumes "x \<notin> set (B b)"
  shows "x \<in> set (new_buckets B b x b)"
proof -
  have "lastopt None (B b) \<noteq> Some x"
    using assms by (cases "B b = []") (auto simp: lastopt_def)
  then show ?thesis by (simp add: new_buckets_def)
qed

lemma fill_ok_init:
  assumes i: "prof_init junk c = Some s0" and d: "0 < prof_max_stack_depth s0"
  shows "\<exists>h. fill_ok rt s0 h [0..<length h] (\<lambda>b. []) {} \<and>
           length h = prof_slot_heap_size s0 \<and>
           prof_slot_heap_size s0 = unsigned_int (profiler_slot_heap_size c) \<and>
           prof_max_stack_depth s0 = unsigned_int (profiler_max_stack_depth c)"
proof -
  from prof_init_ok[OF i, of rt] obtain h where h: "prof_slot_heap s0 = Some h" "0 < length h"
    "struct_ok rt s0 h [0..<length h] (\<lambda>b. []) {}" "count_ok s0 h {}"
    "length h = unsigned_int (profiler_slot_heap_size c)"
    "prof_max_stack_depth s0 = unsigned_int (profiler_max_stack_depth c)"
    "\<exists>buf. prof_backtrace s0 = Some buf \<and> length buf = prof_max_stack_depth s0"
    "prof_others_count s0 = 0" "\<forall>i<length h. \<not> s_used (h ! i)" by blast
  from h(9) have "used_slots h = {}" by (auto simp: used_slots_def)
  with h d have f: "fill_ok rt s0 h [0..<length h] (\<lambda>b. []) {}"
    by (simp add: fill_ok_def)
  from struct_ok_basic[OF h(3)] have sz: "prof_slot_heap_size s0 = length h" by simp
  show ?thesis
    apply (rule exI[of _ h])
    using f sz h(5,6) by simp
qed

lemma fill_step_nil:
  assumes fo: "fill_ok rt s h F B K"
    and nil: "NILP (sample_key rt (prof_max_stack_depth s) bl ! 0)"
  shows "\<exists>s'. prof_signal_handler rt bl s = Some s' \<and> fill_ok rt s' h F B K \<and>
           \<not> sample_evicts rt bl s \<and> prof_max_stack_depth s' = prof_max_stack_depth s"
proof -
  let ?D = "prof_max_stack_depth s"
  from fo obtain buf0 where ok: "struct_ok rt s h F B {}" and d0: "0 < ?D"
    and b0: "prof_backtrace s = Some buf0" and lb: "length buf0 = ?D"
    by (auto simp: fill_ok_def)
  have ck: "prof_capture rt ?D bl buf0 = sample_key rt ?D bl"
    by (rule capture_sample_key[OF lb])
  let ?s' = "s\<lparr>prof_backtrace := Some (sample_key rt ?D bl)\<rparr>"
  have hd: "prof_signal_handler rt bl s = Some ?s'"
    using prof_signal_handler_nil[OF b0, of rt bl] lb d0 nil ck by simp
  have f': "fill_ok rt ?s' h F B K" using fo by (simp add: fill_ok_def)
  have ne: "\<not> sample_evicts rt bl s"
    using sample_evicts_iff[OF ok b0 lb d0, of bl] nil ck by simp
  from hd f' ne show ?thesis by simp
qed

lemma fill_step_found:
  assumes fo: "fill_ok rt s h F B K"
    and nn: "\<not> NILP (sample_key rt (prof_max_stack_depth s) bl ! 0)"
    and kK: "sample_key rt (prof_max_stack_depth s) bl \<in> K"
  shows "\<exists>s' h'. prof_signal_handler rt bl s = Some s' \<and> fill_ok rt s' h' F B K \<and>
           \<not> sample_evicts rt bl s \<and> prof_max_stack_depth s' = prof_max_stack_depth s \<and>
           length h' = length h"
proof -
  let ?D = "prof_max_stack_depth s"
  let ?k = "sample_key rt ?D bl"
  let ?b = "prof_backtrace_index rt ?D ?k"
  from fo obtain buf0 where ok: "struct_ok rt s h F B {}" and cnt: "count_ok s h {}"
    and n0: "0 < length h" and d0: "0 < ?D"
    and b0: "prof_backtrace s = Some buf0" and lb: "length buf0 = ?D"
    and oc: "prof_others_count s = 0"
    and no: "\<forall>i\<in>used_slots h. i \<in> set (B (prof_backtrace_index rt ?D (s_backtrace (h ! i))))"
    and inj: "inj_on (\<lambda>i. s_backtrace (h ! i)) (used_slots h)"
    and im: "(\<lambda>i. s_backtrace (h ! i)) ` used_slots h = K"
    by (auto simp: fill_ok_def)
  have ck: "prof_capture rt ?D bl buf0 = ?k" by (rule capture_sample_key[OF lb])
  have ex: "\<exists>y\<in>set (B ?b). prof_backtrace_equal ?D ?k (s_backtrace (h ! y))"
    using fill_ok_lookup[OF fo, of ?k] kK by simp
  from prof_signal_handler_found[OF ok b0 lb d0, of bl] nn ex ck
  obtain x where x: "x \<in> set (B ?b)"
    and hd: "prof_signal_handler rt bl s =
           Some (s\<lparr>prof_backtrace := Some ?k,
                   prof_slot_heap := Some (h[x := (h ! x)\<lparr>s_count := s_count (h ! x) + 1\<rparr>]),
                   prof_total_count := prof_total_count s + 1\<rparr>)" by auto
  let ?h' = "h[x := (h ! x)\<lparr>s_count := s_count (h ! x) + 1\<rparr>]"
  let ?s' = "s\<lparr>prof_backtrace := Some ?k, prof_slot_heap := Some ?h',
                   prof_total_count := prof_total_count s + 1\<rparr>"
  from struct_ok_member[OF ok bucket_index_less x]
  have xl: "x < length h" and xu: "s_used (h ! x)" by simp_all
  have st: "struct_ok rt ?s' ?h' F B {}"
    by (rule struct_ok_transfer[OF struct_ok_count_upd[OF ok xl]]) simp_all
  have co: "count_ok ?s' ?h' {}"
    by (rule count_ok_incr[OF cnt xl xu]) simp_all
  have us: "used_slots ?h' = used_slots h"
    using xl by (auto simp: used_slots_def nth_list_update)
  have bt: "\<And>i. s_backtrace (?h' ! i) = s_backtrace (h ! i)"
    by (simp add: nth_list_update_gen)
  have f': "fill_ok rt ?s' ?h' F B K"
    unfolding fill_ok_def us using st co n0 d0 oc no inj im by (simp add: bt)
  have ne: "\<not> sample_evicts rt bl s"
    using sample_evicts_iff[OF ok b0 lb d0, of bl] ex ck by auto
  from hd f' ne show ?thesis by auto
qed

lemma fill_step_new:
  assumes fo: "fill_ok rt s h F B K"
    and nn: "\<not> NILP (sample_key rt (prof_max_stack_depth s) bl ! 0)"
    and kK: "sample_key rt (prof_max_stack_depth s) bl \<notin> K"
    and room: "card K < length h"
  shows "\<exists>s' h' B'. prof_signal_handler rt bl s = Some s' \<and>
           fill_ok rt s' h' (tl F) B' (insert (sample_key rt (prof_max_stack_depth s) bl) K) \<and>
           \<not> sample_evicts rt bl s \<and> prof_max_stack_depth s' = prof_max_stack_depth s \<and>
           length h' = length h"
proof -
  let ?D = "prof_max_stack_depth s"
  let ?k = "sample_key rt ?D bl"
  let ?b = "prof_backtrace_index rt ?D ?k"
  from fo obtain buf0 where ok: "struct_ok rt s h F B {}" and cnt: "count_ok s h {}"
    and n0: "0 < length h" and d0: "0 < ?D"
    and b0: "prof_backtrace s = Some buf0" and lb: "length buf0 = ?D"
    and oc: "prof_others_count s = 0"
    and no: "\<forall>i\<in>used_slots h. i \<in> set (B (prof_backtrace_index rt ?D (s_backtrace (h ! i))))"
    and inj: "inj_on (\<lambda>i. s_backtrace (h ! i)) (used_slots h)"
    and im: "(\<lambda>i. s_backtrace (h ! i)) ` used_slots h = K"
    by (auto simp: fill_ok_def)
  have ck: "prof_capture rt ?D bl buf0 = ?k" by (rule capture_sample_key[OF lb])
  have nf: "\<forall>y\<in>set (B ?b). \<not> prof_backtrace_equal ?D ?k (s_backtrace (h ! y))"
    using fill_ok_lookup[OF fo, of ?k] kK by simp
  from fill_ok_free_list[OF fo] room have Fne: "F \<noteq> []" by simp
  then obtain y F' where F: "F = y # F'" by (cases F) auto
  from prof_signal_handler_new[OF ok cnt n0 b0 lb d0, of bl] nn nf ck F
  obtain s' h' where hd: "prof_signal_handler rt bl s = Some s'"
    and st: "struct_ok rt s' h' (tl F) (new_buckets B ?b y) {}"
    and co: "count_ok s' h' {}"
    and sc: "same_ctl (s\<lparr>prof_backtrace := Some ?k,
                       prof_total_count := prof_total_count s + 1\<rparr>) s'"
    and sd: "same_data h' h y" and yu': "s_used (h' ! y)"
    and yb: "s_backtrace (h' ! y) = ?k"
    and oc': "prof_others_count s' = prof_others_count s"
    and yl: "y < length h"
    by auto
  from struct_ok_free[OF ok] F have yn: "\<not> s_used (h ! y)" by auto
  have l': "length h' = length h" using sd by (simp add: same_data_def)
  have oth: "\<And>i. i < length h \<Longrightarrow> i \<noteq> y \<Longrightarrow>
      s_used (h' ! i) = s_used (h ! i) \<and> s_backtrace (h' ! i) = s_backtrace (h ! i)"
    using sd by (simp add: same_data_def)
  have ynU: "y \<notin> used_slots h" using yn by (simp add: used_slots_def)
  have us: "used_slots h' = insert y (used_slots h)"
    using l' yl yu' yn oth by (auto simp: used_slots_def)
  have agree: "\<And>i. i \<in> used_slots h \<Longrightarrow> s_backtrace (h' ! i) = s_backtrace (h ! i)"
    using oth ynU by (auto simp: used_slots_def)
  have D': "prof_max_stack_depth s' = ?D" and bt': "prof_backtrace s' = Some ?k"
    using sc by (simp_all add: same_ctl_def)
  have ynB: "y \<notin> set (B ?b)"
    using struct_ok_member[OF ok bucket_index_less, of y rt ?D ?k] yn by blast
  have no': "\<forall>i\<in>used_slots h'.
      i \<in> set (new_buckets B ?b y (prof_backtrace_index rt ?D (s_backtrace (h' ! i))))"
  proof
    fix i assume i: "i \<in> used_slots h'"
    show "i \<in> set (new_buckets B ?b y (prof_backtrace_index rt ?D (s_backtrace (h' ! i))))"
    proof (cases "i = y")
      case True
      with yb new_buckets_self[of y B ?b, OF ynB] show ?thesis by simp
    next
      case False
      with i us have iu: "i \<in> used_slots h" by simp
      with no agree[OF iu] False show ?thesis by (simp add: new_buckets_other)
    qed
  qed
  have im': "(\<lambda>i. s_backtrace (h' ! i)) ` used_slots h' = insert ?k K"
  proof -
    have "(\<lambda>i. s_backtrace (h' ! i)) ` used_slots h = (\<lambda>i. s_backtrace (h ! i)) ` used_slots h"
      by (rule image_cong) (simp_all add: agree)
    with im yb show ?thesis by (simp add: us)
  qed
  have inj': "inj_on (\<lambda>i. s_backtrace (h' ! i)) (used_slots h')"
  proof -
    have a: "inj_on (\<lambda>i. s_backtrace (h' ! i)) (used_slots h)"
      using inj agree by (simp cong: inj_on_cong)
    have "(\<lambda>i. s_backtrace (h' ! i)) ` (used_slots h - {y}) = K"
      using im ynU agree by (auto simp: image_iff)
    with a yb kK show ?thesis by (simp add: us)
  qed
  have f': "fill_ok rt s' h' (tl F) (new_buckets B ?b y) (insert ?k K)"
    unfolding fill_ok_def D' using st co n0 l' d0 bt' oc oc' no' inj' im' by simp
  have ne: "\<not> sample_evicts rt bl s"
    using sample_evicts_iff[OF ok b0 lb d0, of bl] Fne by simp
  from hd f' ne D' l' show ?thesis by blast
qed

lemma sample_keys_Cons:
  "sample_keys rt D (bl # bls) = sample_keys rt D [bl] @ sample_keys rt D bls"
  by (simp add: sample_keys_def)

lemma fill_step:
  assumes fo: "fill_ok rt s h F B K"
    and cd: "card (K \<union> set (sample_keys rt (prof_max_stack_depth s) [bl])) \<le> length h"
  shows "\<exists>s' h' F' B'. prof_signal_handler rt bl s = Some s' \<and>
           fill_ok rt s' h' F' B' (K \<union> set (sample_keys rt (prof_max_stack_depth s) [bl])) \<and>
           \<not> sample_evicts rt bl s \<and> prof_max_stack_depth s' = prof_max_stack_depth s \<and>
           length h' = length h"
proof -
  let ?D = "prof_max_stack_depth s"
  let ?k = "sample_key rt ?D bl"
  from fill_ok_card[OF fo] have fin: "finite K" by simp
  show ?thesis
  proof (cases "NILP (?k ! 0)")
    case True
    then have e: "K \<union> set (sample_keys rt ?D [bl]) = K" by (simp add: sample_keys_def)
    from fill_step_nil[OF fo True] show ?thesis unfolding e by blast
  next
    case nn: False
    then have e: "K \<union> set (sample_keys rt ?D [bl]) = insert ?k K"
      by (simp add: sample_keys_def)
    show ?thesis
    proof (cases "?k \<in> K")
      case True
      then have e': "insert ?k K = K" by auto
      from fill_step_found[OF fo nn True] show ?thesis unfolding e e' by blast
    next
      case False
      with cd fin have "card K < length h" unfolding e by simp
      from fill_step_new[OF fo nn False this] show ?thesis unfolding e by blast
    qed
  qed
qed

lemma fill_run:
  assumes fo: "fill_ok rt s h F B K"
    and cd: "card (K \<union> set (sample_keys rt (prof_max_stack_depth s) bls)) \<le> length h"
  shows "\<exists>s' h' F' B'. prof_run rt junk (map Signal bls) s = Some s' \<and>
           fill_ok rt s' h' F' B' (K \<union> set (sample_keys rt (prof_max_stack_depth s) bls)) \<and>
           count_evictions rt bls s = 0 \<and> prof_max_stack_depth s' = prof_max_stack_depth s \<and>
           length h' = length h"
  using fo cd
proof (induction bls arbitrary: s h F B K)
  case Nil
  then show ?case by (auto simp: sample_keys_def)
next
  case (Cons bl bls)
  let ?D = "prof_max_stack_depth s"
  let ?K1 = "K \<union> set (sample_keys rt ?D [bl])"
  from fill_ok_card[OF Cons.prems(1)] have fin: "finite K" by simp
  have un: "K \<union> set (sample_keys rt ?D (bl # bls)) = ?K1 \<union> set (sample_keys rt ?D bls)"
    by (subst sample_keys_Cons) auto
  have "card ?K1 \<le> card (K \<union> set (sample_keys rt ?D (bl # bls)))"
    unfolding un by (rule card_mono) (use fin in auto)
  with Cons.prems(2) have c1: "card ?K1 \<le> length h" by simp
  from fill_step[OF Cons.prems(1) c1]
  obtain s1 h1 F1 B1 where hd: "prof_signal_handler rt bl s = Some s1"
    and f1: "fill_ok rt s1 h1 F1 B1 ?K1" and ne: "\<not> sample_evicts rt bl s"
    and D1: "prof_max_stack_depth s1 = ?D" and l1: "length h1 = length h" by blast
  have c2: "card (?K1 \<union> set (sample_keys rt (prof_max_stack_depth s1) bls)) \<le> length h1"
    using Cons.prems(2) unfolding un D1 l1 by simp
  from Cons.IH[OF f1 c2]
  obtain s' h' F' B' where r: "prof_run rt junk (map Signal bls) s1 = Some s'"
    and f': "fill_ok rt s' h' F' B' (?K1 \<union> set (sample_keys rt ?D bls))"
    and ce: "count_evictions rt bls s1 = 0"
    and D': "prof_max_stack_depth s' = ?D" and l': "length h' = length h"
    unfolding D1 l1 by blast
  have "prof_run rt junk (map Signal (bl # bls)) s = Some s'" using hd r by simp
  moreover have "count_evictions rt (bl # bls) s = 0" using hd ne ce by simp
  ultimately show ?case using f' D' l' unfolding un by blast
qed

lemma count_evictions_append:
  "prof_run rt junk (map Signal bls) s = Some s' \<Longrightarrow>
   count_evictions rt (bls @ bls') s = count_evictions rt bls s + count_evictions rt bls' s'"
proof (induction bls arbitrary: s)
  case Nil
  then show ?case by simp
next
  case (Cons bl bls)
  then show ?case by (cases "prof_signal_handler rt bl s") simp_all
qed

lemma full_step:
  assumes fo: "fill_ok rt s h F B K"
    and nn: "\<not> NILP (sample_key rt (prof_max_stack_depth s) bl ! 0)"
    and kK: "sample_key rt (prof_max_stack_depth s) bl \<notin> K"
    and full: "card K = length h"
    and run: "prof_run rt junk (map Signal bls) s0 = Some s"
    and ce: "count_evictions rt bls s0 = 0"
  shows "\<exists>s' h' v. prof_signal_handler rt bl s = Some s' \<and>
           count_evictions rt (bls @ [bl]) s0 = 1 \<and>
           prof_slot_heap s' = Some h' \<and>
           first_min h (length h) v \<and>
           prof_others_count s' = prof_others_count s + s_count (h ! v) \<and>
           prof_total_count s' = prof_total_count s + 1 \<and>
           s_used (h' ! v) \<and> s_count (h' ! v) = 1 \<and>
           s_backtrace (h' ! v) = sample_key rt (prof_max_stack_depth s) bl \<and>
           same_data h' h v \<and>
           struct_ok rt s' h' [] (new_buckets B (prof_backtrace_index rt (prof_max_stack_depth s) (sample_key rt (prof_max_stack_depth s) bl)) v) {} \<and>
           count_ok s' h' {} \<and>
           (if lastopt None (B (prof_backtrace_index rt (prof_max_stack_depth s) (sample_key rt (prof_max_stack_depth s) bl))) = Some v
            then (\<forall>c<PROF_HASH_TABLE_SIZE. v \<notin> set (new_buckets B (prof_backtrace_index rt (prof_max_stack_depth s) (sample_key rt (prof_max_stack_depth s) bl)) v c)) \<and>
                 s_next (h' ! v) = Some v \<and> s_prev (h' ! v) = Some v
            else new_buckets B (prof_backtrace_index rt (prof_max_stack_depth s) (sample_key rt (prof_max_stack_depth s) bl)) v (prof_backtrace_index rt (prof_max_stack_depth s) (sample_key rt (prof_max_stack_depth s) bl)) =
                 remove1 v (B (prof_backtrace_index rt (prof_max_stack_depth s) (sample_key rt (prof_max_stack_depth s) bl))) @ [v])"
proof -
  let ?D = "prof_max_stack_depth s"
  let ?k = "sample_key rt ?D bl"
  let ?b = "prof_backtrace_index rt ?D ?k"
  from fo obtain buf0 where ok: "struct_ok rt s h F B {}" and cnt: "count_ok s h {}"
    and n0: "0 < length h" and d0: "0 < ?D"
    and b0: "prof_backtrace s = Some buf0" and lb: "length buf0 = ?D"
    by (auto simp: fill_ok_def)
  have ck: "prof_capture rt ?D bl buf0 = ?k" by (rule capture_sample_key[OF lb])
  have nf: "\<forall>y\<in>set (B ?b). \<not> prof_backtrace_equal ?D ?k (s_backtrace (h ! y))"
    using fill_ok_lookup[OF fo, of ?k] kK by simp
  from fill_ok_free_list[OF fo] full have F: "F = []" by simp
  from prof_signal_handler_new[OF ok cnt n0 b0 lb d0, of bl] nn nf ck F
  obtain v s' h' where hd: "prof_signal_handler rt bl s = Some s'"
    and vl: "v < length h"
    and st: "struct_ok rt s' h' [] (new_buckets B ?b v) {}"
    and co: "count_ok s' h' {}"
    and sc: "same_ctl (s\<lparr>prof_backtrace := Some ?k,
                       prof_total_count := prof_total_count s + 1\<rparr>) s'"
    and sd: "same_data h' h v" and vu: "s_used (h' ! v)" and vc: "s_count (h' ! v) = 1"
    and vb: "s_backtrace (h' ! v) = ?k"
    and fm: "first_min h (length h) v"
    and oc': "prof_others_count s' = prof_others_count s + s_count (h ! v)"
    by auto
  have hp': "prof_slot_heap s' = Some h'" using struct_ok_basic[OF st] by simp
  have tc: "prof_total_count s' = prof_total_count s + 1"
    using sc by (simp add: same_ctl_def)
  have ev: "sample_evicts rt bl s"
    using sample_evicts_iff[OF ok b0 lb d0, of bl] nn nf ck F by simp
  have c1: "count_evictions rt (bls @ [bl]) s0 = 1"
    using count_evictions_append[OF run, of "[bl]"] ce ev hd by simp
  have vl': "v < length h'" using vl sd by (simp add: same_data_def)
  have lk: "if lastopt None (B ?b) = Some v
            then (\<forall>c<PROF_HASH_TABLE_SIZE. v \<notin> set (new_buckets B ?b v c)) \<and>
                 s_next (h' ! v) = Some v \<and> s_prev (h' ! v) = Some v
            else new_buckets B ?b v ?b = remove1 v (B ?b) @ [v]"
  proof (cases "lastopt None (B ?b) = Some v")
    case True
    then have nb: "new_buckets B ?b v = (\<lambda>c. remove1 v (B c))"
      by (simp add: new_buckets_def)
    have nin: "\<forall>c<PROF_HASH_TABLE_SIZE. v \<notin> set (new_buckets B ?b v c)"
    proof (intro allI impI)
      fix c assume c: "c < PROF_HASH_TABLE_SIZE"
      from struct_ok_bucket[OF ok c] have "distinct (B c)" by simp
      then show "v \<notin> set (new_buckets B ?b v c)" by (simp add: nb)
    qed
    have "v \<notin> ({} :: nat set)" by simp
    from struct_ok_orphan[OF st vl' vu this nin] nin True show ?thesis by simp
  next
    case False
    then show ?thesis by (simp add: new_buckets_def)
  qed
  from hd c1 hp' fm oc' tc vu vc vb sd st co lk show ?thesis by blast
qed

section \<open>Runs of atomic events\<close>

text \<open>
  On a run from the initial state in which no handler runs inside \<^verbatim>\<open>prof_init\<close>, the
  invariant holds at every state. Then, when the free list is empty, every slot is used,
  every provisional minimum of the scan of \<^verbatim>\<open>prof_evict_min_slot\<close> is a used slot,
  and \<^verbatim>\<open>prof_evict_min_slot\<close> returns; and the total count is the sum of the counts of
  the used slots plus the count of the others, which \<^verbatim>\<open>prof_evict_slot\<close>,
  \<^verbatim>\<open>prof_ensure_slot\<close> and every atomic event keep.
\<close>

lemma atomic_eviction_victim_used:
  assumes at: "list_all atomic_event es"
    and run: "prof_run rt junk es (syms_of_profiler z) = Some s"
    and hp: "prof_slot_heap s = Some h" and fl: "prof_free_list s = None"
  shows "(\<forall>i<length h. s_used (h ! i)) \<and>
         (\<forall>buf n. 0 < n \<and> n \<le> prof_slot_heap_size s \<longrightarrow>
            (\<exists>m<n. prof_evict_min_scan (s\<lparr>prof_backtrace := buf\<rparr>) n 0 None = Some (Some m) \<and>
                    s_used (h ! m))) \<and>
         (\<forall>buf. \<exists>m s'. prof_evict_min_scan (s\<lparr>prof_backtrace := buf\<rparr>)
                           (prof_slot_heap_size s) 0 None = Some (Some m) \<and>
                         m < length h \<and> s_used (h ! m) \<and>
                         prof_evict_min_slot rt (s\<lparr>prof_backtrace := buf\<rparr>) = Some s')"
proof -
  have inv: "prof_inv rt s" by (rule prof_inv_run[OF prof_inv_initial at run])
  with hp obtain F B where n0: "0 < length h" and ok: "struct_ok rt s h F B {}"
    by (auto simp: prof_inv_def)
  from struct_ok_free_empty[OF ok] fl have F: "F = []" by simp
  with ok have ok': "struct_ok rt s h [] B {}" by simp
  note au = struct_ok_all_used[OF ok']
  note ba = struct_ok_basic[OF ok]
  have b: "\<exists>m<n. prof_evict_min_scan (s\<lparr>prof_backtrace := buf\<rparr>) n 0 None = Some (Some m) \<and>
                    s_used (h ! m)"
    if n: "0 < n" "n \<le> prof_slot_heap_size s" for buf n
  proof -
    have "prof_slot_heap (s\<lparr>prof_backtrace := buf\<rparr>) = Some h" using hp by simp
    from scan_all_used[OF this au _ n(1)] n(2) ba
    obtain r where r: "prof_evict_min_scan (s\<lparr>prof_backtrace := buf\<rparr>) n 0 None = Some (Some r)"
      "first_min h n r" by auto
    then have "r < n" by (simp add: first_min_def)
    with r au n(2) ba show ?thesis by auto
  qed
  have c: "\<exists>m s'. prof_evict_min_scan (s\<lparr>prof_backtrace := buf\<rparr>)
                           (prof_slot_heap_size s) 0 None = Some (Some m) \<and>
                         m < length h \<and> s_used (h ! m) \<and>
                         prof_evict_min_slot rt (s\<lparr>prof_backtrace := buf\<rparr>) = Some s'" for buf
  proof -
    from b[of "prof_slot_heap_size s" buf] n0 ba
    obtain m where m: "m < length h"
      "prof_evict_min_scan (s\<lparr>prof_backtrace := buf\<rparr>) (prof_slot_heap_size s) 0 None = Some (Some m)"
      "s_used (h ! m)" by auto
    have "struct_ok rt (s\<lparr>prof_backtrace := buf\<rparr>) h [] B {}" using ok' by simp
    from prof_evict_min_slot_eq[OF this n0]
    obtain s' where "prof_evict_min_slot rt (s\<lparr>prof_backtrace := buf\<rparr>) = Some s'" by blast
    with m show ?thesis by blast
  qed
  from au b c show ?thesis by blast
qed

lemma atomic_total_count_equation:
  assumes at: "list_all atomic_event es"
    and run: "prof_run rt junk es (syms_of_profiler z) = Some s"
    and hp: "prof_slot_heap s = Some h"
  shows "counts_balance s h \<and>
         (\<forall>v<length h. s_used (h ! v) \<longrightarrow>
            (\<exists>s' h'. prof_evict_slot rt v s = Some s' \<and> prof_slot_heap s' = Some h' \<and>
               prof_others_count s' = prof_others_count s + s_count (h ! v) \<and>
               \<not> s_used (h' ! v) \<and> counts_balance s' h')) \<and>
         (\<forall>backtrace. \<exists>slot s' h'. prof_ensure_slot rt backtrace s = Some (slot, s') \<and>
               prof_slot_heap s' = Some h' \<and> counts_balance s' h') \<and>
         (\<forall>e s' h'. atomic_event e \<longrightarrow> prof_step rt junk e s = Some s' \<longrightarrow>
               prof_slot_heap s' = Some h' \<longrightarrow> counts_balance s' h')"
proof -
  have inv: "prof_inv rt s" by (rule prof_inv_run[OF prof_inv_initial at run])
  with hp obtain F B where n0: "0 < length h" and ok: "struct_ok rt s h F B {}"
    and cnt: "count_ok s h {}" by (auto simp: prof_inv_def)
  have a: "counts_balance s h" using cnt by (simp add: count_ok_counts_balance)
  have b: "\<exists>s' h'. prof_evict_slot rt v s = Some s' \<and> prof_slot_heap s' = Some h' \<and>
               prof_others_count s' = prof_others_count s + s_count (h ! v) \<and>
               \<not> s_used (h' ! v) \<and> counts_balance s' h'"
    if v: "v < length h" and u: "s_used (h ! v)" for v
    using prof_evict_slot_eq[OF ok v u] evict_count_ok[OF ok cnt v u] v
    by (simp add: count_ok_counts_balance free_heap_def)
  have c: "\<exists>slot s' h'. prof_ensure_slot rt backtrace s = Some (slot, s') \<and>
               prof_slot_heap s' = Some h' \<and> counts_balance s' h'" for backtrace
    using prof_ensure_slot_count_ok[OF ok cnt n0, of backtrace]
    by (auto simp: count_ok_counts_balance)
  have d: "counts_balance s' h'"
    if ae: "atomic_event e" and st: "prof_step rt junk e s = Some s'"
      and hp': "prof_slot_heap s' = Some h'" for e s' h'
  proof -
    have "prof_inv rt s'" by (rule prof_inv_step[OF inv ae st])
    with hp' show ?thesis by (auto simp: prof_inv_def count_ok_counts_balance)
  qed
  from a b c d show ?thesis by blast
qed

text \<open>
  With the handler running inside \<^verbatim>\<open>prof_init\<close>, \<^verbatim>\<open>Fprofiler_start_sampling\<close> still
  returns \<^verbatim>\<open>t\<close> whenever it returns, with the mode, the start time and the interval
  set.
\<close>

lemma start_sampling_interrupted_returns_t:
  assumes "Fprofiler_start_sampling_interrupted rt sa_ok it_ok junk now interval irq1 irq2 s
             = Some (r, s')"
  shows "r = Qt \<and> prof_mode s' = intern ''sample'' \<and> prof_start_time s' = now \<and>
         prof_sample_interval s' = interval"
  using assms
  by (auto simp: Fprofiler_start_sampling_interrupted_def Let_def sigaction_SIGPROF_def
      setitimer_PROF_def split: bind_splits if_splits)

section \<open>The report\<close>


lemma prof_backtrace_list_eq:
  "prof_backtrace_list D bt n = Flist (takeWhile (\<lambda>x. \<not> NILP x) (map ((!) bt) [n..<D]))"
proof (induction D bt n rule: prof_backtrace_list.induct)
  case (1 D bt n)
  show ?case
  proof (cases "D \<le> n")
    case True
    then show ?thesis by (subst prof_backtrace_list.simps) simp
  next
    case False
    then have e: "[n..<D] = n # [n + 1..<D]" by (simp add: upt_conv_Cons)
    show ?thesis
    proof (cases "NILP (bt ! n)")
      case True
      with False e show ?thesis by (subst prof_backtrace_list.simps) simp
    next
      case F2: False
      from 1[OF False F2] False F2 e show ?thesis
        by (subst prof_backtrace_list.simps) simp
    qed
  qed
qed

lemma slot_entry_eq:
  "D \<le> length (s_backtrace sl) \<Longrightarrow>
   list2 (prof_backtrace_list D (s_backtrace sl) 0) (make_number rt (s_count sl)) =
   slot_entry rt D sl"
proof -
  assume "D \<le> length (s_backtrace sl)"
  then have "map ((!) (s_backtrace sl)) [0..<D] = take D (s_backtrace sl)"
    by (simp add: list_eq_iff_nth_eq)
  then show ?thesis by (simp add: slot_entry_def prof_backtrace_list_eq)
qed

lemma prof_snapshot_slots_eq:
  assumes hp: "prof_slot_heap s = Some h" and sz: "prof_slot_heap_size s = length h"
    and len: "\<forall>sl\<in>set h. prof_max_stack_depth s \<le> length (s_backtrace sl)"
  shows "i \<le> length h \<Longrightarrow>
         prof_snapshot_slots rt s i (Flist acc) =
         Some (Flist (rev (map (slot_entry rt (prof_max_stack_depth s)) (filter s_used (drop i h)))
                      @ acc))"
proof (induction "length h - i" arbitrary: i acc)
  case 0
  then show ?case using sz by (subst prof_snapshot_slots.simps) simp
next
  case (Suc k)
  then have lt: "i < length h" by simp
  have k: "k = length h - (i + 1)" using Suc.hyps(2) by simp
  have d: "drop i h = h ! i # drop (i + 1) h" using lt by (simp add: Cons_nth_drop_Suc)
  have e: "list2 (prof_backtrace_list (prof_max_stack_depth s) (s_backtrace (h ! i)) 0)
             (make_number rt (s_count (h ! i))) = slot_entry rt (prof_max_stack_depth s) (h ! i)"
    using len lt by (simp add: slot_entry_eq)
  show ?case
  proof (cases "s_used (h ! i)")
    case True
    have "prof_snapshot_slots rt s i (Flist acc) =
          prof_snapshot_slots rt s (i + 1)
            (Flist (slot_entry rt (prof_max_stack_depth s) (h ! i) # acc))"
      using lt sz hp True e by (subst prof_snapshot_slots.simps) (simp add: get_slot_def)
    also have "\<dots> = Some (Flist (rev (map (slot_entry rt (prof_max_stack_depth s))
                 (filter s_used (drop (i + 1) h))) @ slot_entry rt (prof_max_stack_depth s) (h ! i) # acc))"
      using Suc.hyps(1)[OF k, where acc = "slot_entry rt (prof_max_stack_depth s) (h ! i) # acc"] lt
      by simp
    finally show ?thesis using d True by simp
  next
    case False
    have "prof_snapshot_slots rt s i (Flist acc) = prof_snapshot_slots rt s (i + 1) (Flist acc)"
      using lt sz hp False by (subst prof_snapshot_slots.simps) (simp add: get_slot_def)
    also have "\<dots> = Some (Flist (rev (map (slot_entry rt (prof_max_stack_depth s))
                 (filter s_used (drop (i + 1) h))) @ acc))"
      using Suc.hyps(1)[OF k] lt by simp
    finally show ?thesis using d False by simp
  qed
qed

lemma prof_snapshot_slots_some:
  assumes hp: "prof_slot_heap s = Some h" and sz: "prof_slot_heap_size s = length h"
  shows "prof_snapshot_slots rt s i slots \<noteq> None"
proof (induction "length h - i" arbitrary: i slots)
  case 0
  then show ?case using sz by (subst prof_snapshot_slots.simps) simp
next
  case (Suc k)
  then have lt: "i < length h" and k: "k = length h - (i + 1)" by simp_all
  from Suc.hyps(1)[OF k] lt hp sz show ?case
    by (subst prof_snapshot_slots.simps) (simp add: get_slot_def)
qed

lemma demo_run_A:
  "prof_run demo_host demo_junk (demo_start @ [Signal [Symbol ''car'']]) (syms_of_profiler Qnil)
   = Some (demo_state [Signal [Symbol ''car'']])"
  unfolding demo_state_def by code_simp

section \<open>The claims\<close>

text \<open>
  Claim C1: whenever eviction runs, its victim is a slot marked used, and so is every
  provisional minimum of the scan, so that the assertion of \<^verbatim>\<open>prof_free_slot\<close> holds.
  The code breaks this when the handler runs inside \<^verbatim>\<open>prof_init\<close>. After the samples
  \<^verbatim>\<open>car\<close> and \<^verbatim>\<open>cons\<close> have filled both slots, \<^verbatim>\<open>Fprofiler_reset\<close> frees the heap and
  leaves \<^verbatim>\<open>prof_free_list\<close> null, the timer armed, the handler installed and the signal
  unblocked. In the \<^verbatim>\<open>Fprofiler_start_sampling\<close> that follows, \<^verbatim>\<open>prof_init\<close> has allocated
  the new heap and marked both slots unused when the handler runs for a sample \<^verbatim>\<open>car\<close>:
  it finds no slot, \<^verbatim>\<open>prof_allocate_slot\<close> sees the null free list and calls
  \<^verbatim>\<open>prof_evict_min_slot\<close>, whose scan takes slot 0 without reading its flag and keeps it,
  slot 1 being unused: the provisional minimum and the victim are the unused slot 0.
  With assertions compiled in, \<^verbatim>\<open>eassert (slot->used)\<close> fails and the run does not
  return; with assertions compiled out and fresh memory zero, the unused slot is
  evicted and put on the free list. On runs of atomic events the claim holds
  (\<open>atomic_eviction_victim_used\<close>).
\<close>

theorem eviction_of_unused_slot:
  "prof_slot_heap (demo_state [Signal [Symbol ''car''], Signal [Symbol ''cons''], Reset]) = None \<and>
   prof_free_list (demo_state [Signal [Symbol ''car''], Signal [Symbol ''cons''], Reset]) = None \<and>
   itimer_prof (demo_state [Signal [Symbol ''car''], Signal [Symbol ''cons''], Reset])
     = Some 10000 \<and>
   sigprof_handler (demo_state [Signal [Symbol ''car''], Signal [Symbol ''cons''], Reset]) \<and>
   \<not> sigprof_blocked (demo_state [Signal [Symbol ''car''], Signal [Symbol ''cons''], Reset]) \<and>
   map_option (map s_used)
     (prof_slot_heap (prof_init_alloc demo_junk
        (demo_state [Signal [Symbol ''car''], Signal [Symbol ''cons''], Reset])))
     = Some [False, False] \<and>
   prof_free_list (prof_init_alloc demo_junk
        (demo_state [Signal [Symbol ''car''], Signal [Symbol ''cons''], Reset])) = None \<and>
   sample_evicts demo_host [Symbol ''car'']
     (prof_init_alloc demo_junk
        (demo_state [Signal [Symbol ''car''], Signal [Symbol ''cons''], Reset])) \<and>
   prof_evict_min_scan
     ((prof_init_alloc demo_junk
         (demo_state [Signal [Symbol ''car''], Signal [Symbol ''cons''], Reset]))
        \<lparr>prof_backtrace := Some [Symbol ''car'']\<rparr>) 1 0 None = Some (Some 0) \<and>
   prof_evict_min_scan
     ((prof_init_alloc demo_junk
         (demo_state [Signal [Symbol ''car''], Signal [Symbol ''cons''], Reset]))
        \<lparr>prof_backtrace := Some [Symbol ''car'']\<rparr>) 2 0 None = Some (Some 0) \<and>
   map_option (eassert demo_host \<circ> s_used)
     (get_slot
        (prof_init_alloc demo_junk
           (demo_state [Signal [Symbol ''car''], Signal [Symbol ''cons''], Reset])) 0)
     = Some None \<and>
   prof_signal_handler demo_host [Symbol ''car'']
     (prof_init_alloc demo_junk
        (demo_state [Signal [Symbol ''car''], Signal [Symbol ''cons''], Reset])) = None \<and>
   prof_run demo_host demo_junk (demo_start @ demo_restart) (syms_of_profiler Qnil) = None \<and>
   prof_run demo_host demo_junk
     (demo_start @ [Signal [Symbol ''car''], Signal [Symbol ''cons''], Reset,
                    Start_sampling True True (Number 3) (Number 10) [] [],
                    Signal [Symbol ''car'']])
     (syms_of_profiler Qnil) \<noteq> None \<and>
   map_option (map s_used \<circ> the \<circ> prof_slot_heap)
     (prof_evict_min_slot demo_host_unchecked
        ((prof_init_alloc demo_zero
            (demo_state_unchecked [Signal [Symbol ''car''], Signal [Symbol ''cons''], Reset]))
           \<lparr>prof_backtrace := Some [Symbol ''car'']\<rparr>)) = Some [False, False] \<and>
   map_option prof_free_list
     (prof_evict_min_slot demo_host_unchecked
        ((prof_init_alloc demo_zero
            (demo_state_unchecked [Signal [Symbol ''car''], Signal [Symbol ''cons''], Reset]))
           \<lparr>prof_backtrace := Some [Symbol ''car'']\<rparr>)) = Some (Some 0)"
  unfolding demo_state_def demo_state_unchecked_def by code_simp

text \<open>
  Claim C2, as amended. The report of \<^verbatim>\<open>Fprofiler_take_snapshot\<close> is the property list
  of mode, start time, stop time, slots, sample interval and sample count. Its slots
  are one entry per used slot, in descending order of slot index, each with the frames
  of the slot before the first \<^verbatim>\<open>nil\<close> and its count, followed by exactly one entry for
  the others as the LAST element, with the frames \<^verbatim>\<open>(t)\<close> and the count of the others
  (also when that is zero): the loop conses every slot in front of the list that
  starts as that entry. Counts are as \<^verbatim>\<open>make_number\<close> gives them.
\<close>

theorem snapshot_overflow_last:
  assumes hp: "prof_slot_heap s = Some h" and sz: "prof_slot_heap_size s = length h"
    and len: "\<forall>sl\<in>set h. prof_max_stack_depth s \<le> length (s_backtrace sl)"
  shows "Fprofiler_take_snapshot rt now s =
         Some (Flist
           [intern ''mode'', prof_mode s,
            intern ''start-time'', prof_start_time s,
            intern ''stop-time'', now,
            intern ''slots'',
              Flist (map (slot_entry rt (prof_max_stack_depth s)) (rev (filter s_used h))
                     @ [overflow_entry rt s]),
            intern ''sample-interval'', prof_sample_interval s,
            intern ''sample-count'', make_number rt (prof_total_count s)],
           s\<lparr>sigprof_blocked := False\<rparr>)"
proof -
  let ?s1 = "prof_block_signal s"
  have a: "prof_slot_heap ?s1 = Some h" "prof_slot_heap_size ?s1 = length h"
    "\<forall>sl\<in>set h. prof_max_stack_depth ?s1 \<le> length (s_backtrace sl)"
    using hp sz len by (simp_all add: prof_block_signal_def)
  have "list1 (list2 (list1 Qt) (make_number rt (prof_others_count ?s1))) =
        Flist [overflow_entry rt s]"
    by (simp add: list1_def overflow_entry_def prof_block_signal_def)
  then have "prof_snapshot_slots rt ?s1 0
          (list1 (list2 (list1 Qt) (make_number rt (prof_others_count ?s1)))) =
        Some (Flist (rev (map (slot_entry rt (prof_max_stack_depth ?s1)) (filter s_used (drop 0 h)))
                      @ [overflow_entry rt s]))"
    using prof_snapshot_slots_eq[OF a, of 0 rt "[overflow_entry rt s]"] by simp
  then show ?thesis
    by (simp add: Fprofiler_take_snapshot_def Let_def prof_block_signal_def
        prof_unblock_signal_def rev_map)
qed

text \<open>The same at a state with two used slots and no eviction so far.\<close>

theorem snapshot_overflow_last_witness:
  "Fprofiler_take_snapshot demo_host (Number 2)
      (demo_state [Signal [Symbol ''car''], Signal [Symbol ''car''], Signal [Symbol ''cons'']]) =
   Some (Flist
     [Symbol ''mode'', Symbol ''sample'',
      Symbol ''start-time'', Number 1,
      Symbol ''stop-time'', Number 2,
      Symbol ''slots'',
        Flist [list2 (Flist [Symbol ''cons'']) (Number 1),
               list2 (Flist [Symbol ''car'']) (Number 2),
               list2 (Flist [Qt]) (Number 0)],
      Symbol ''sample-interval'', Number 10,
      Symbol ''sample-count'', Number 3],
     (demo_state [Signal [Symbol ''car''], Signal [Symbol ''car''], Signal [Symbol ''cons'']])
       \<lparr>sigprof_blocked := False\<rparr>)"
proof -
  let ?s = "demo_state [Signal [Symbol ''car''], Signal [Symbol ''car''], Signal [Symbol ''cons'']]"
  let ?h = "[\<lparr>s_next = None, s_prev = None, s_backtrace = [Symbol ''car''], s_count = 2,
              s_used = True\<rparr>,
            \<lparr>s_next = None, s_prev = None, s_backtrace = [Symbol ''cons''], s_count = 1,
              s_used = True\<rparr>] :: 64 prof_slot list"
  have hp: "prof_slot_heap ?s = Some ?h" unfolding demo_state_def by code_simp
  have sz: "prof_slot_heap_size ?s = length ?h" unfolding demo_state_def by code_simp
  have d: "prof_max_stack_depth ?s = 1" unfolding demo_state_def by code_simp
  have len: "\<forall>sl\<in>set ?h. prof_max_stack_depth ?s \<le> length (s_backtrace sl)"
    by (simp add: d)
  have f: "prof_mode ?s = Symbol ''sample''" "prof_start_time ?s = Number 1"
    "prof_sample_interval ?s = Number 10" "prof_total_count ?s = 3" "prof_others_count ?s = 0"
    unfolding demo_state_def by code_simp+
  have mk: "make_number demo_host = (\<lambda>c. Number (uint c))" by (simp add: demo_host_def)
  from snapshot_overflow_last[OF hp sz len, of demo_host "Number 2"]
  show ?thesis
    by (simp add: f d mk slot_entry_def overflow_entry_def intern_def NILP_def list1_def)
qed

text \<open>
  The claim as stated asks for the entry of the others FIRST. After the samples
  \<^verbatim>\<open>car\<close>, \<^verbatim>\<open>car\<close>, \<^verbatim>\<open>cons\<close> it is the third and last entry.
\<close>

theorem snapshot_overflow_first_counterexample:
  "map_option fst (Fprofiler_take_snapshot demo_host (Number 2)
      (demo_state [Signal [Symbol ''car''], Signal [Symbol ''car''], Signal [Symbol ''cons'']])) =
   Some (Flist
     [Symbol ''mode'', Symbol ''sample'',
      Symbol ''start-time'', Number 1,
      Symbol ''stop-time'', Number 2,
      Symbol ''slots'',
        Flist [list2 (Flist [Symbol ''cons'']) (Number 1),
               list2 (Flist [Symbol ''car'']) (Number 2),
               list2 (Flist [Qt]) (Number 0)],
      Symbol ''sample-interval'', Number 10,
      Symbol ''sample-count'', Number 3])"
  unfolding demo_state_def by code_simp




text \<open>
  Claim C4: at every state observed outside the handler, the total count is the sum of
  the counts of the used slots plus the count of the others. The code breaks this when
  the handler runs inside \<^verbatim>\<open>prof_init\<close>, with assertions compiled out and fresh memory
  zero. After the samples \<^verbatim>\<open>car\<close> and \<^verbatim>\<open>cons\<close> and a reset, the handler runs for a
  sample \<^verbatim>\<open>car\<close> when \<^verbatim>\<open>prof_init\<close> has allocated the heap: it takes slot 0 for
  \<^verbatim>\<open>car\<close>, with count 1, and increments the total. \<^verbatim>\<open>prof_init\<close> then chains all slots
  into the free list and clears both counters. When \<^verbatim>\<open>Fprofiler_start_sampling\<close> has
  returned, slot 0 is used with count 1 (and is the head of the free list as well), the
  total is 0 and the count of the others is 0; a snapshot reports a slot of count 1 and a
  sample count of 0. On runs of atomic events the claim holds
  (\<open>atomic_total_count_equation\<close>).
\<close>

theorem interrupted_init_breaks_count_equation:
  "map_option prof_slot_heap
     (prof_run demo_host_unchecked demo_zero (demo_start @ demo_restart) (syms_of_profiler Qnil)) =
   Some (Some
     [\<lparr>s_next = Some 1, s_prev = None, s_backtrace = [Symbol ''car''], s_count = 1,
        s_used = True\<rparr>,
      \<lparr>s_next = None, s_prev = None, s_backtrace = [Qnil], s_count = 0, s_used = False\<rparr>]) \<and>
   map_option prof_total_count
     (prof_run demo_host_unchecked demo_zero (demo_start @ demo_restart) (syms_of_profiler Qnil))
     = Some 0 \<and>
   map_option prof_others_count
     (prof_run demo_host_unchecked demo_zero (demo_start @ demo_restart) (syms_of_profiler Qnil))
     = Some 0 \<and>
   map_option prof_free_list
     (prof_run demo_host_unchecked demo_zero (demo_start @ demo_restart) (syms_of_profiler Qnil))
     = Some (Some 0) \<and>
   map_option prof_hash_table
     (prof_run demo_host_unchecked demo_zero (demo_start @ demo_restart) (syms_of_profiler Qnil))
     = Some ((replicate 128 None)[3 := Some 0]) \<and>
   \<not> counts_balance (demo_state_unchecked demo_restart)
     [\<lparr>s_next = Some 1, s_prev = None, s_backtrace = [Symbol ''car''], s_count = 1,
        s_used = True\<rparr>,
      \<lparr>s_next = None, s_prev = None, s_backtrace = [Qnil], s_count = 0, s_used = False\<rparr>] \<and>
   map_option fst
     (Fprofiler_take_snapshot demo_host_unchecked (Number 4) (demo_state_unchecked demo_restart)) =
   Some (Flist
     [Symbol ''mode'', Symbol ''sample'',
      Symbol ''start-time'', Number 3,
      Symbol ''stop-time'', Number 4,
      Symbol ''slots'',
        Flist [list2 (Flist [Symbol ''car'']) (Number 1),
               list2 (Flist [Qt]) (Number 0)],
      Symbol ''sample-interval'', Number 10,
      Symbol ''sample-count'', Number 0])"
  unfolding demo_state_unchecked_def by code_simp

text \<open>
  Claim C5: every slot is either on the free list and unused, or in exactly one chain
  and used. The code breaks this when the slot it evicts is the last one of the chain
  it is extending: \<^verbatim>\<open>prof_ensure_slot\<close> links the new slot behind \<^verbatim>\<open>prev\<close>, which is
  that very slot. With two slots and \<^verbatim>\<open>car\<close>, \<^verbatim>\<open>cdr\<close>, \<^verbatim>\<open>nth\<close> in one bucket, the
  samples \<^verbatim>\<open>car\<close>, \<^verbatim>\<open>car\<close>, \<^verbatim>\<open>cdr\<close>, \<^verbatim>\<open>nth\<close> leave slot 1 used, off the free list,
  pointing to itself, and in no chain: the only non-empty bucket holds slot 0 alone.
\<close>

theorem ensure_slot_orphan:
  "map_option prof_slot_heap
     (prof_run demo_host demo_junk
        (demo_start @ [Signal [Symbol ''car''], Signal [Symbol ''car''],
                       Signal [Symbol ''cdr''], Signal [Symbol ''nth'']])
        (syms_of_profiler Qnil)) =
   Some (Some
     [\<lparr>s_next = None, s_prev = None, s_backtrace = [Symbol ''car''], s_count = 2, s_used = True\<rparr>,
      \<lparr>s_next = Some 1, s_prev = Some 1, s_backtrace = [Symbol ''nth''], s_count = 1,
        s_used = True\<rparr>]) \<and>
   map_option prof_free_list
     (prof_run demo_host demo_junk
        (demo_start @ [Signal [Symbol ''car''], Signal [Symbol ''car''],
                       Signal [Symbol ''cdr''], Signal [Symbol ''nth'']])
        (syms_of_profiler Qnil)) = Some None \<and>
   map_option prof_hash_table
     (prof_run demo_host demo_junk
        (demo_start @ [Signal [Symbol ''car''], Signal [Symbol ''car''],
                       Signal [Symbol ''cdr''], Signal [Symbol ''nth'']])
        (syms_of_profiler Qnil)) = Some ((replicate 128 None)[3 := Some 0])"
  by code_simp

text \<open>
  Claim C6. Start from the pool that \<^verbatim>\<open>prof_init\<close> builds when it is not interrupted:
  its capacity \<^verbatim>\<open>prof_slot_heap_size\<close> and its depth \<^verbatim>\<open>prof_max_stack_depth\<close> are the
  configured values as \<^verbatim>\<open>unsigned int\<close>; let the depth be non-zero (with depth zero
  the handler reads \<^verbatim>\<open>prof_backtrace[0]\<close> outside the buffer). After any samples
  whose keys are at most as many as the capacity, every run of the handler has returned
  and none has evicted; the state is that of a pool that has not evicted (\<open>fill_ok\<close>):
  the invariant holds, the count of the others is zero, and the used slots hold exactly
  the keys, one slot each, every one in the chain of its bucket. When the keys are as
  many as the capacity, every slot is used, the free list is empty, and one more sample
  with a new key evicts exactly once: the victim \<open>v\<close> is the first slot of minimal count,
  the count of the others grows by the count of \<open>v\<close>, the total by 1, slot \<open>v\<close> then
  holds the new key with count 1, and every other slot keeps its flag, its count and its
  backtrace. The chains \<open>B\<close> become \<open>new_buckets B b v\<close>, \<open>b\<close> being the bucket of
  the new key: \<open>v\<close> is unlinked from its chain and appended to the chain of \<open>b\<close>,
  unless \<open>v\<close> was the last slot of the chain of \<open>b\<close> itself: then \<open>v\<close> holds the new
  key with count 1 but points to itself and is in no chain (\<^verbatim>\<open>prof_ensure_slot\<close> links it
  behind the \<^verbatim>\<open>prev\<close> it kept, which is \<open>v\<close>).
\<close>

theorem fill_then_one_eviction:
  assumes init: "prof_init junk c = Some s0"
    and depth: "0 < prof_max_stack_depth s0"
    and few: "card (set (sample_keys rt (prof_max_stack_depth s0) bls)) \<le> prof_slot_heap_size s0"
  shows "prof_slot_heap_size s0 = unsigned_int (profiler_slot_heap_size c) \<and>
         prof_max_stack_depth s0 = unsigned_int (profiler_max_stack_depth c) \<and>
         (\<exists>s h F B. prof_run rt junk (map Signal bls) s0 = Some s \<and>
            fill_ok rt s h F B (set (sample_keys rt (prof_max_stack_depth s0) bls)) \<and>
            prof_slot_heap s = Some h \<and> length h = prof_slot_heap_size s0 \<and>
            count_evictions rt bls s0 = 0 \<and> prof_others_count s = 0 \<and>
            (\<lambda>i. s_backtrace (h ! i)) ` used_slots h = set (sample_keys rt (prof_max_stack_depth s0) bls) \<and>
            card (used_slots h) = card (set (sample_keys rt (prof_max_stack_depth s0) bls)) \<and>
            (card (set (sample_keys rt (prof_max_stack_depth s0) bls)) = prof_slot_heap_size s0 \<longrightarrow>
             (\<forall>i<length h. s_used (h ! i)) \<and> prof_free_list s = None \<and>
             (\<forall>bl. \<not> NILP (sample_key rt (prof_max_stack_depth s0) bl ! 0) \<and> sample_key rt (prof_max_stack_depth s0) bl \<notin> set (sample_keys rt (prof_max_stack_depth s0) bls) \<longrightarrow>
                (\<exists>s' h' v. prof_signal_handler rt bl s = Some s' \<and>
                   count_evictions rt (bls @ [bl]) s0 = 1 \<and>
                   prof_slot_heap s' = Some h' \<and>
                   first_min h (length h) v \<and>
                   prof_others_count s' = prof_others_count s + s_count (h ! v) \<and>
                   prof_total_count s' = prof_total_count s + 1 \<and>
                   s_used (h' ! v) \<and> s_count (h' ! v) = 1 \<and>
                   s_backtrace (h' ! v) = sample_key rt (prof_max_stack_depth s0) bl \<and>
                   same_data h' h v \<and>
                   struct_ok rt s' h' [] (new_buckets B (prof_backtrace_index rt (prof_max_stack_depth s0) (sample_key rt (prof_max_stack_depth s0) bl)) v) {} \<and>
                   count_ok s' h' {} \<and>
                   (if lastopt None (B (prof_backtrace_index rt (prof_max_stack_depth s0) (sample_key rt (prof_max_stack_depth s0) bl))) = Some v
                    then (\<forall>c<PROF_HASH_TABLE_SIZE. v \<notin> set (new_buckets B (prof_backtrace_index rt (prof_max_stack_depth s0) (sample_key rt (prof_max_stack_depth s0) bl)) v c)) \<and>
                         s_next (h' ! v) = Some v \<and> s_prev (h' ! v) = Some v
                    else new_buckets B (prof_backtrace_index rt (prof_max_stack_depth s0) (sample_key rt (prof_max_stack_depth s0) bl)) v (prof_backtrace_index rt (prof_max_stack_depth s0) (sample_key rt (prof_max_stack_depth s0) bl)) =
                         remove1 v (B (prof_backtrace_index rt (prof_max_stack_depth s0) (sample_key rt (prof_max_stack_depth s0) bl))) @ [v])))))"
proof -
  let ?D = "prof_max_stack_depth s0"
  let ?K = "set (sample_keys rt (prof_max_stack_depth s0) bls)"
  from fill_ok_init[OF init depth, of rt]
  obtain h0 where f0: "fill_ok rt s0 h0 [0..<length h0] (\<lambda>b. []) {}"
    and l0: "length h0 = prof_slot_heap_size s0"
    and tr: "prof_slot_heap_size s0 = unsigned_int (profiler_slot_heap_size c)"
      "prof_max_stack_depth s0 = unsigned_int (profiler_max_stack_depth c)" by blast
  have c0: "card ({} \<union> ?K) \<le> length h0"
    using few by (simp add: l0)
  from fill_run[OF f0 c0, of junk]
  obtain s h F B where run: "prof_run rt junk (map Signal bls) s0 = Some s"
    and fo: "fill_ok rt s h F B ?K" and ce: "count_evictions rt bls s0 = 0"
    and D: "prof_max_stack_depth s = ?D" and l: "length h = prof_slot_heap_size s0"
    by (auto simp: l0)
  from fo have ok: "struct_ok rt s h F B {}" and oc: "prof_others_count s = 0"
    and im: "(\<lambda>i. s_backtrace (h ! i)) ` used_slots h = ?K"
    by (simp_all add: fill_ok_def)
  have hp: "prof_slot_heap s = Some h" using struct_ok_basic[OF ok] by simp
  from fill_ok_card[OF fo] have cu: "card (used_slots h) = card ?K" by simp
  have full: "(\<forall>i<length h. s_used (h ! i)) \<and> prof_free_list s = None \<and>
             (\<forall>bl. \<not> NILP (sample_key rt (prof_max_stack_depth s0) bl ! 0) \<and> sample_key rt (prof_max_stack_depth s0) bl \<notin> ?K \<longrightarrow>
                (\<exists>s' h' v. prof_signal_handler rt bl s = Some s' \<and>
                   count_evictions rt (bls @ [bl]) s0 = 1 \<and>
                   prof_slot_heap s' = Some h' \<and>
                   first_min h (length h) v \<and>
                   prof_others_count s' = prof_others_count s + s_count (h ! v) \<and>
                   prof_total_count s' = prof_total_count s + 1 \<and>
                   s_used (h' ! v) \<and> s_count (h' ! v) = 1 \<and>
                   s_backtrace (h' ! v) = sample_key rt (prof_max_stack_depth s0) bl \<and>
                   same_data h' h v \<and>
                   struct_ok rt s' h' [] (new_buckets B (prof_backtrace_index rt (prof_max_stack_depth s0) (sample_key rt (prof_max_stack_depth s0) bl)) v) {} \<and>
                   count_ok s' h' {} \<and>
                   (if lastopt None (B (prof_backtrace_index rt (prof_max_stack_depth s0) (sample_key rt (prof_max_stack_depth s0) bl))) = Some v
                    then (\<forall>c<PROF_HASH_TABLE_SIZE. v \<notin> set (new_buckets B (prof_backtrace_index rt (prof_max_stack_depth s0) (sample_key rt (prof_max_stack_depth s0) bl)) v c)) \<and>
                         s_next (h' ! v) = Some v \<and> s_prev (h' ! v) = Some v
                    else new_buckets B (prof_backtrace_index rt (prof_max_stack_depth s0) (sample_key rt (prof_max_stack_depth s0) bl)) v (prof_backtrace_index rt (prof_max_stack_depth s0) (sample_key rt (prof_max_stack_depth s0) bl)) =
                         remove1 v (B (prof_backtrace_index rt (prof_max_stack_depth s0) (sample_key rt (prof_max_stack_depth s0) bl))) @ [v])))"
    if cK: "card ?K = prof_slot_heap_size s0"
  proof -
    from cK l have ful: "card ?K = length h" by simp
    with fill_ok_free_list[OF fo] have F: "F = []" by simp
    with struct_ok_free_empty[OF ok] have fl: "prof_free_list s = None" by simp
    from ok F have "struct_ok rt s h [] B {}" by simp
    from struct_ok_all_used[OF this] have au: "\<forall>i<length h. s_used (h ! i)" .
    have st: "\<exists>s' h' v. prof_signal_handler rt bl s = Some s' \<and>
              count_evictions rt (bls @ [bl]) s0 = 1 \<and>
              prof_slot_heap s' = Some h' \<and>
              first_min h (length h) v \<and>
              prof_others_count s' = prof_others_count s + s_count (h ! v) \<and>
              prof_total_count s' = prof_total_count s + 1 \<and>
              s_used (h' ! v) \<and> s_count (h' ! v) = 1 \<and>
              s_backtrace (h' ! v) = sample_key rt (prof_max_stack_depth s0) bl \<and>
              same_data h' h v \<and>
              struct_ok rt s' h' [] (new_buckets B (prof_backtrace_index rt (prof_max_stack_depth s0) (sample_key rt (prof_max_stack_depth s0) bl)) v) {} \<and>
              count_ok s' h' {} \<and>
              (if lastopt None (B (prof_backtrace_index rt (prof_max_stack_depth s0) (sample_key rt (prof_max_stack_depth s0) bl))) = Some v
               then (\<forall>c<PROF_HASH_TABLE_SIZE. v \<notin> set (new_buckets B (prof_backtrace_index rt (prof_max_stack_depth s0) (sample_key rt (prof_max_stack_depth s0) bl)) v c)) \<and>
                    s_next (h' ! v) = Some v \<and> s_prev (h' ! v) = Some v
               else new_buckets B (prof_backtrace_index rt (prof_max_stack_depth s0) (sample_key rt (prof_max_stack_depth s0) bl)) v (prof_backtrace_index rt (prof_max_stack_depth s0) (sample_key rt (prof_max_stack_depth s0) bl)) =
                    remove1 v (B (prof_backtrace_index rt (prof_max_stack_depth s0) (sample_key rt (prof_max_stack_depth s0) bl))) @ [v])"
      if nn: "\<not> NILP (sample_key rt (prof_max_stack_depth s0) bl ! 0)" and nk: "sample_key rt (prof_max_stack_depth s0) bl \<notin> ?K" for bl
      using full_step[OF fo _ _ ful run ce, of bl, unfolded D] nn nk by blast
    from au fl st show ?thesis by blast
  qed
  from tr run fo hp l ce oc im cu full show ?thesis by blast
qed

text \<open>
  A configured size of \<open>2^32 + 2\<close> gives two slots. The samples \<^verbatim>\<open>car\<close> and \<^verbatim>\<open>cons\<close>
  fill them; the sample \<^verbatim>\<open>list\<close>, of the bucket of \<^verbatim>\<open>cons\<close>, evicts slot 0, which then
  follows slot 1 in that chain. Had the third sample been \<^verbatim>\<open>cdr\<close>, of the bucket of
  \<^verbatim>\<open>car\<close>, the victim would have been the last slot of the chain of the new key: slot 0
  then holds \<^verbatim>\<open>cdr\<close> with count 1, points to itself and is in no chain.
\<close>

theorem fill_then_one_eviction_witness:
  "prof_slot_heap_size (the (prof_init demo_junk
          ((syms_of_profiler Qnil)\<lparr>profiler_max_stack_depth := 1,
                                    profiler_slot_heap_size := 4294967298\<rparr>))) = 2 \<and>
   (\<exists>s h F B s' h' v.
     prof_run demo_host demo_junk (map Signal [[Symbol ''car''], [Symbol ''cons'']])
       (the (prof_init demo_junk
          ((syms_of_profiler Qnil)\<lparr>profiler_max_stack_depth := 1,
                                    profiler_slot_heap_size := 4294967298\<rparr>))) = Some s \<and>
     prof_slot_heap s = Some h \<and> length h = 2 \<and>
     count_evictions demo_host [[Symbol ''car''], [Symbol ''cons'']]
       (the (prof_init demo_junk
          ((syms_of_profiler Qnil)\<lparr>profiler_max_stack_depth := 1,
                                    profiler_slot_heap_size := 4294967298\<rparr>))) = 0 \<and>
     prof_others_count s = 0 \<and> card (used_slots h) = 2 \<and> prof_free_list s = None \<and>
     prof_signal_handler demo_host [Symbol ''list''] s = Some s' \<and>
     count_evictions demo_host ([[Symbol ''car''], [Symbol ''cons'']] @ [[Symbol ''list'']])
       (the (prof_init demo_junk
          ((syms_of_profiler Qnil)\<lparr>profiler_max_stack_depth := 1,
                                    profiler_slot_heap_size := 4294967298\<rparr>))) = 1 \<and>
     prof_slot_heap s' = Some h' \<and>
     first_min h (length h) v \<and>
     prof_others_count s' = prof_others_count s + s_count (h ! v) \<and>
     prof_total_count s' = prof_total_count s + 1 \<and>
     s_used (h' ! v) \<and> s_count (h' ! v) = 1 \<and>
     s_backtrace (h' ! v) = [Symbol ''list''] \<and>
     same_data h' h v \<and>
     struct_ok demo_host s' h' [] (new_buckets B 4 v) {} \<and>
     count_ok s' h' {} \<and>
     (if lastopt None (B 4) = Some v
      then (\<forall>c<PROF_HASH_TABLE_SIZE. v \<notin> set (new_buckets B 4 v c)) \<and>
           s_next (h' ! v) = Some v \<and> s_prev (h' ! v) = Some v
      else new_buckets B 4 v 4 =
           remove1 v (B 4) @ [v])) \<and>
   map_option prof_slot_heap
     (prof_run demo_host demo_junk
        (map Signal [[Symbol ''car''], [Symbol ''cons''], [Symbol ''list'']])
        (the (prof_init demo_junk
          ((syms_of_profiler Qnil)\<lparr>profiler_max_stack_depth := 1,
                                    profiler_slot_heap_size := 4294967298\<rparr>)))) =
   Some (Some
     [\<lparr>s_next = None, s_prev = Some 1, s_backtrace = [Symbol ''list''], s_count = 1,
        s_used = True\<rparr>,
      \<lparr>s_next = Some 0, s_prev = None, s_backtrace = [Symbol ''cons''], s_count = 1,
        s_used = True\<rparr>]) \<and>
   map_option prof_hash_table
     (prof_run demo_host demo_junk
        (map Signal [[Symbol ''car''], [Symbol ''cons''], [Symbol ''list'']])
        (the (prof_init demo_junk
          ((syms_of_profiler Qnil)\<lparr>profiler_max_stack_depth := 1,
                                    profiler_slot_heap_size := 4294967298\<rparr>)))) =
   Some ((replicate 128 None)[4 := Some 1]) \<and>
   map_option prof_slot_heap
     (prof_run demo_host demo_junk
        (map Signal [[Symbol ''car''], [Symbol ''cons''], [Symbol ''cdr'']])
        (the (prof_init demo_junk
          ((syms_of_profiler Qnil)\<lparr>profiler_max_stack_depth := 1,
                                    profiler_slot_heap_size := 4294967298\<rparr>)))) =
   Some (Some
     [\<lparr>s_next = Some 0, s_prev = Some 0, s_backtrace = [Symbol ''cdr''], s_count = 1,
        s_used = True\<rparr>,
      \<lparr>s_next = None, s_prev = None, s_backtrace = [Symbol ''cons''], s_count = 1,
        s_used = True\<rparr>]) \<and>
   map_option prof_hash_table
     (prof_run demo_host demo_junk
        (map Signal [[Symbol ''car''], [Symbol ''cons''], [Symbol ''cdr'']])
        (the (prof_init demo_junk
          ((syms_of_profiler Qnil)\<lparr>profiler_max_stack_depth := 1,
                                    profiler_slot_heap_size := 4294967298\<rparr>)))) =
   Some ((replicate 128 None)[4 := Some 1])"
proof -
  let ?c = "(syms_of_profiler Qnil :: 64 prof_state)\<lparr>profiler_max_stack_depth := 1,
                                    profiler_slot_heap_size := 4294967298\<rparr>"
  let ?s0 = "the (prof_init demo_junk ?c)"
  let ?bls = "[[Symbol ''car''], [Symbol ''cons'']]"
  have init: "prof_init demo_junk ?c = Some ?s0"
    by (simp add: prof_init_closed unsigned_int_def)
  have d: "prof_max_stack_depth ?s0 = 1" "prof_slot_heap_size ?s0 = 2" by code_simp+
  have ks: "sample_keys demo_host 1 ?bls = [[Symbol ''car''], [Symbol ''cons'']]" by code_simp
  have k: "sample_key demo_host 1 [Symbol ''list''] = [Symbol ''list'']" by code_simp
  have ix: "prof_backtrace_index demo_host 1 [Symbol ''list''] = 4" by code_simp
  have cs: "card (set (sample_keys demo_host 1 ?bls)) = 2" unfolding ks by simp
  have depth: "0 < prof_max_stack_depth ?s0" unfolding d by simp
  have few: "card (set (sample_keys demo_host (prof_max_stack_depth ?s0) ?bls))
               \<le> prof_slot_heap_size ?s0" unfolding d cs by simp
  from fill_then_one_eviction[OF init depth few, unfolded d cs]
  obtain s h F B where r: "prof_run demo_host demo_junk (map Signal ?bls) ?s0 = Some s"
    "prof_slot_heap s = Some h" "length h = 2"
    "count_evictions demo_host ?bls ?s0 = 0" "prof_others_count s = 0"
    "card (used_slots h) = 2"
    and full: "prof_free_list s = None \<and>
       (\<forall>bl. \<not> NILP (sample_key demo_host 1 bl ! 0) \<and>
                  sample_key demo_host 1 bl \<notin> set (sample_keys demo_host 1 ?bls) \<longrightarrow>
               (\<exists>s' h' v. prof_signal_handler demo_host bl s = Some s' \<and>
                  count_evictions demo_host (?bls @ [bl]) ?s0 = 1 \<and>
                  prof_slot_heap s' = Some h' \<and>
                  first_min h (length h) v \<and>
                  prof_others_count s' = prof_others_count s + s_count (h ! v) \<and>
                  prof_total_count s' = prof_total_count s + 1 \<and>
                  s_used (h' ! v) \<and> s_count (h' ! v) = 1 \<and>
                  s_backtrace (h' ! v) = sample_key demo_host 1 bl \<and>
                  same_data h' h v \<and>
                  struct_ok demo_host s' h' [] (new_buckets B (prof_backtrace_index demo_host 1 (sample_key demo_host 1 bl)) v) {} \<and>
                  count_ok s' h' {} \<and>
                  (if lastopt None (B (prof_backtrace_index demo_host 1 (sample_key demo_host 1 bl))) = Some v
                   then (\<forall>c<PROF_HASH_TABLE_SIZE. v \<notin> set (new_buckets B (prof_backtrace_index demo_host 1 (sample_key demo_host 1 bl)) v c)) \<and>
                        s_next (h' ! v) = Some v \<and> s_prev (h' ! v) = Some v
                   else new_buckets B (prof_backtrace_index demo_host 1 (sample_key demo_host 1 bl)) v (prof_backtrace_index demo_host 1 (sample_key demo_host 1 bl)) =
                        remove1 v (B (prof_backtrace_index demo_host 1 (sample_key demo_host 1 bl))) @ [v])))"
    by blast
  from full have fl: "prof_free_list s = None" by blast
  have "\<not> NILP (sample_key demo_host 1 [Symbol ''list''] ! 0) \<and>
        sample_key demo_host 1 [Symbol ''list''] \<notin> set (sample_keys demo_host 1 ?bls)"
    unfolding k ks by (simp add: NILP_def)
  with full obtain s' h' v where a: "prof_signal_handler demo_host [Symbol ''list''] s = Some s'"
    "count_evictions demo_host (?bls @ [[Symbol ''list'']]) ?s0 = 1"
    "prof_slot_heap s' = Some h'"
    and q: "first_min h (length h) v \<and>
        prof_others_count s' = prof_others_count s + s_count (h ! v) \<and>
        prof_total_count s' = prof_total_count s + 1 \<and>
        s_used (h' ! v) \<and> s_count (h' ! v) = 1 \<and>
        s_backtrace (h' ! v) = sample_key demo_host 1 [Symbol ''list''] \<and>
        same_data h' h v \<and>
        struct_ok demo_host s' h' [] (new_buckets B (prof_backtrace_index demo_host 1 (sample_key demo_host 1 [Symbol ''list''])) v) {} \<and>
        count_ok s' h' {} \<and>
        (if lastopt None (B (prof_backtrace_index demo_host 1 (sample_key demo_host 1 [Symbol ''list'']))) = Some v
         then (\<forall>c<PROF_HASH_TABLE_SIZE. v \<notin> set (new_buckets B (prof_backtrace_index demo_host 1 (sample_key demo_host 1 [Symbol ''list''])) v c)) \<and>
              s_next (h' ! v) = Some v \<and> s_prev (h' ! v) = Some v
         else new_buckets B (prof_backtrace_index demo_host 1 (sample_key demo_host 1 [Symbol ''list''])) v (prof_backtrace_index demo_host 1 (sample_key demo_host 1 [Symbol ''list''])) =
              remove1 v (B (prof_backtrace_index demo_host 1 (sample_key demo_host 1 [Symbol ''list'']))) @ [v])"
    by blast
  have e: "\<exists>s h F B s' h' v.
     prof_run demo_host demo_junk (map Signal ?bls) ?s0 = Some s \<and>
     prof_slot_heap s = Some h \<and> length h = 2 \<and>
     count_evictions demo_host ?bls ?s0 = 0 \<and>
     prof_others_count s = 0 \<and> card (used_slots h) = 2 \<and> prof_free_list s = None \<and>
     prof_signal_handler demo_host [Symbol ''list''] s = Some s' \<and>
     count_evictions demo_host (?bls @ [[Symbol ''list'']]) ?s0 = 1 \<and>
     prof_slot_heap s' = Some h' \<and>
     first_min h (length h) v \<and>
     prof_others_count s' = prof_others_count s + s_count (h ! v) \<and>
     prof_total_count s' = prof_total_count s + 1 \<and>
     s_used (h' ! v) \<and> s_count (h' ! v) = 1 \<and>
     s_backtrace (h' ! v) = [Symbol ''list''] \<and>
     same_data h' h v \<and>
     struct_ok demo_host s' h' [] (new_buckets B 4 v) {} \<and>
     count_ok s' h' {} \<and>
     (if lastopt None (B 4) = Some v
      then (\<forall>c<PROF_HASH_TABLE_SIZE. v \<notin> set (new_buckets B 4 v c)) \<and>
           s_next (h' ! v) = Some v \<and> s_prev (h' ! v) = Some v
      else new_buckets B 4 v 4 =
           remove1 v (B 4) @ [v])"
    using r fl a q[unfolded k ix] by blast
  have c1: "map_option prof_slot_heap
     (prof_run demo_host demo_junk
        (map Signal [[Symbol ''car''], [Symbol ''cons''], [Symbol ''list'']]) ?s0) =
   Some (Some
     [\<lparr>s_next = None, s_prev = Some 1, s_backtrace = [Symbol ''list''], s_count = 1,
        s_used = True\<rparr>,
      \<lparr>s_next = Some 0, s_prev = None, s_backtrace = [Symbol ''cons''], s_count = 1,
        s_used = True\<rparr>])" by code_simp
  have c2: "map_option prof_hash_table
     (prof_run demo_host demo_junk
        (map Signal [[Symbol ''car''], [Symbol ''cons''], [Symbol ''list'']]) ?s0) =
   Some ((replicate 128 None)[4 := Some 1])" by code_simp
  have c3: "map_option prof_slot_heap
     (prof_run demo_host demo_junk
        (map Signal [[Symbol ''car''], [Symbol ''cons''], [Symbol ''cdr'']]) ?s0) =
   Some (Some
     [\<lparr>s_next = Some 0, s_prev = Some 0, s_backtrace = [Symbol ''cdr''], s_count = 1,
        s_used = True\<rparr>,
      \<lparr>s_next = None, s_prev = None, s_backtrace = [Symbol ''cons''], s_count = 1,
        s_used = True\<rparr>])" by code_simp
  have c4: "map_option prof_hash_table
     (prof_run demo_host demo_junk
        (map Signal [[Symbol ''car''], [Symbol ''cons''], [Symbol ''cdr'']]) ?s0) =
   Some ((replicate 128 None)[4 := Some 1])" by code_simp
  from d(2) e c1 c2 c3 c4 show ?thesis by blast
qed

text \<open>
  Claim C7. When the first element of the captured backtrace is \<^verbatim>\<open>nil\<close>, the handler
  returns and leaves the state as it was, the scratch buffer \<^verbatim>\<open>prof_backtrace\<close> apart,
  which holds the captured backtrace itself: the slot heap, the hash table, the free
  list and both counters are unchanged.
\<close>

theorem sentinel_sample_discarded:
  assumes "prof_backtrace s = Some buf0"
    and "prof_max_stack_depth s \<le> length buf0" and "0 < length buf0"
    and "NILP (prof_capture rt (prof_max_stack_depth s) backtrace_list buf0 ! 0)"
  shows "\<exists>s'. prof_signal_handler rt backtrace_list s = Some s' \<and>
           s' = s\<lparr>prof_backtrace :=
                    Some (prof_capture rt (prof_max_stack_depth s) backtrace_list buf0)\<rparr> \<and>
           prof_slot_heap s' = prof_slot_heap s \<and>
           prof_hash_table s' = prof_hash_table s \<and>
           prof_free_list s' = prof_free_list s \<and>
           prof_total_count s' = prof_total_count s \<and>
           prof_others_count s' = prof_others_count s"
  using prof_signal_handler_nil[OF assms] by simp

text \<open>The function of the innermost frame is not a symbol.\<close>

theorem sentinel_sample_discarded_witness:
  "prof_signal_handler demo_host [Number 5, Symbol ''car''] (demo_state [Signal [Symbol ''car'']]) =
   Some ((demo_state [Signal [Symbol ''car'']])\<lparr>prof_backtrace := Some [Qnil]\<rparr>)"
proof -
  let ?s = "demo_state [Signal [Symbol ''car'']]"
  have b: "prof_backtrace ?s = Some [Symbol ''car'']"
    unfolding demo_state_def by code_simp
  have d: "prof_max_stack_depth ?s = 1"
    unfolding demo_state_def by code_simp
  have c: "prof_capture demo_host 1 [Number 5, Symbol ''car''] [Symbol ''car''] = [Qnil]"
    by code_simp
  from sentinel_sample_discarded[of ?s "[Symbol ''car'']" demo_host "[Number 5, Symbol ''car'']"] b d c
  show ?thesis by (simp add: NILP_def)
qed

text \<open>
  Claim C8: sampling the same backtrace again increments the count of its one slot and
  creates no second slot for it. The code breaks this for a slot that is in no chain
  (the stale \<^verbatim>\<open>prev\<close> of \<^verbatim>\<open>prof_ensure_slot\<close>): after the samples \<^verbatim>\<open>car\<close>, \<^verbatim>\<open>car\<close>,
  \<^verbatim>\<open>cdr\<close>, \<^verbatim>\<open>nth\<close>, a second sample of \<^verbatim>\<open>nth\<close> does not find the slot of \<^verbatim>\<open>nth\<close>,
  evicts it (the count of the others goes from 1 to 2) and creates a slot for \<^verbatim>\<open>nth\<close>
  again, whose count is 1 and not 2.
\<close>

theorem repeated_sample_recreated:
  "map_option prof_slot_heap
     (prof_run demo_host demo_junk
        (demo_start @ [Signal [Symbol ''car''], Signal [Symbol ''car''],
                       Signal [Symbol ''cdr''], Signal [Symbol ''nth''], Signal [Symbol ''nth'']])
        (syms_of_profiler Qnil)) =
   Some (Some
     [\<lparr>s_next = Some 1, s_prev = None, s_backtrace = [Symbol ''car''], s_count = 2, s_used = True\<rparr>,
      \<lparr>s_next = None, s_prev = Some 0, s_backtrace = [Symbol ''nth''], s_count = 1,
        s_used = True\<rparr>]) \<and>
   map_option prof_others_count
     (prof_run demo_host demo_junk
        (demo_start @ [Signal [Symbol ''car''], Signal [Symbol ''car''],
                       Signal [Symbol ''cdr''], Signal [Symbol ''nth''], Signal [Symbol ''nth'']])
        (syms_of_profiler Qnil)) = Some 2 \<and>
   map_option prof_others_count
     (prof_run demo_host demo_junk
        (demo_start @ [Signal [Symbol ''car''], Signal [Symbol ''car''],
                       Signal [Symbol ''cdr''], Signal [Symbol ''nth'']])
        (syms_of_profiler Qnil)) = Some 1 \<and>
   map_option prof_total_count
     (prof_run demo_host demo_junk
        (demo_start @ [Signal [Symbol ''car''], Signal [Symbol ''car''],
                       Signal [Symbol ''cdr''], Signal [Symbol ''nth''], Signal [Symbol ''nth'']])
        (syms_of_profiler Qnil)) = Some 5"
  by code_simp




text \<open>
  Claim C10. With a slot heap allocated, \<^verbatim>\<open>Fprofiler_reset\<close> frees the heap and the
  backtrace buffer but leaves \<^verbatim>\<open>prof_slot_heap_size\<close>, the timer and the handler as
  they were. A handler run that follows accesses the freed buffer, and a snapshot that
  follows reads slots of the freed heap as soon as the recorded size is not zero.
  A snapshot of a state whose heap is allocated with the recorded size returns.
\<close>

theorem reset_leaves_size_and_trigger:
  assumes hp: "prof_slot_heap s = Some h"
  shows "prof_slot_heap (Fprofiler_reset s) = None \<and>
         prof_backtrace (Fprofiler_reset s) = None \<and>
         prof_slot_heap_size (Fprofiler_reset s) = prof_slot_heap_size s \<and>
         itimer_prof (Fprofiler_reset s) = itimer_prof s \<and>
         sigprof_handler (Fprofiler_reset s) = sigprof_handler s \<and>
         \<not> sigprof_blocked (Fprofiler_reset s) \<and>
         prof_signal_handler rt backtrace_list (Fprofiler_reset s) = None \<and>
         (0 < prof_slot_heap_size s \<longrightarrow>
            Fprofiler_take_snapshot rt now (Fprofiler_reset s) = None) \<and>
         (prof_slot_heap_size s = length h \<longrightarrow> Fprofiler_take_snapshot rt now s \<noteq> None)"
proof -
  let ?r = "Fprofiler_reset s"
  have r: "?r = s\<lparr>sigprof_blocked := False, prof_backtrace := None, prof_slot_heap := None\<rparr>"
    using hp
    by (simp add: Fprofiler_reset_def Let_def prof_block_signal_def prof_unblock_signal_def)
  have h: "prof_signal_handler rt backtrace_list ?r = None"
    by (simp add: r prof_signal_handler_def)
  have sn: "0 < prof_slot_heap_size s \<Longrightarrow> Fprofiler_take_snapshot rt now ?r = None"
    unfolding Fprofiler_take_snapshot_def Let_def
    by (subst prof_snapshot_slots.simps) (simp add: r prof_block_signal_def get_slot_def)
  have ok: "prof_slot_heap_size s = length h \<Longrightarrow> Fprofiler_take_snapshot rt now s \<noteq> None"
  proof -
    assume sz: "prof_slot_heap_size s = length h"
    have "prof_snapshot_slots rt (prof_block_signal s) 0
            (list1 (list2 (list1 Qt) (make_number rt (prof_others_count (prof_block_signal s)))))
          \<noteq> None"
      by (rule prof_snapshot_slots_some[of _ h]) (simp_all add: prof_block_signal_def hp sz)
    then show ?thesis
      by (auto simp: Fprofiler_take_snapshot_def Let_def)
  qed
  from h sn ok show ?thesis by (simp add: r)
qed

theorem reset_leaves_size_and_trigger_witness:
  "prof_slot_heap (Fprofiler_reset (demo_state [Signal [Symbol ''car'']])) = None \<and>
   prof_slot_heap_size (Fprofiler_reset (demo_state [Signal [Symbol ''car'']])) = 2 \<and>
   itimer_prof (Fprofiler_reset (demo_state [Signal [Symbol ''car'']])) = Some 10000 \<and>
   sigprof_handler (Fprofiler_reset (demo_state [Signal [Symbol ''car'']])) \<and>
   prof_signal_handler demo_host [Symbol ''car'']
     (Fprofiler_reset (demo_state [Signal [Symbol ''car'']])) = None \<and>
   Fprofiler_take_snapshot demo_host (Number 2)
     (Fprofiler_reset (demo_state [Signal [Symbol ''car'']])) = None \<and>
   Fprofiler_take_snapshot demo_host (Number 2) (demo_state [Signal [Symbol ''car'']]) \<noteq> None"
proof -
  let ?s = "demo_state [Signal [Symbol ''car'']]"
  let ?h = "[\<lparr>s_next = None, s_prev = None, s_backtrace = [Symbol ''car''], s_count = 1,
              s_used = True\<rparr>,
            \<lparr>s_next = None, s_prev = Some 9, s_backtrace = [Qt], s_count = 5,
              s_used = False\<rparr>] :: 64 prof_slot list"
  have hp: "prof_slot_heap ?s = Some ?h" unfolding demo_state_def by code_simp
  have f: "prof_slot_heap_size ?s = 2" "itimer_prof ?s = Some 10000" "sigprof_handler ?s"
    unfolding demo_state_def by code_simp+
  from reset_leaves_size_and_trigger[OF hp, of demo_host "[Symbol ''car'']" "Number 2"] f
  show ?thesis by simp
qed

end
